theory Spec2Isabelle
  imports Main "HOL-Library.Multiset"
begin

section \<open>The containers\<close>

subsection \<open>Min-heap (MinHeap.h, MinHeap.cpp)\<close>

text \<open>
  A heap cell carries a value and a stable identifier; the visual coordinates of the
  source's struct play no part in the algorithms and are left out. The class holds the
  backing vector and the identifier counter. Values are only compared, never computed
  with, so they are unbounded integers here. Array indices are non-negative wherever the
  source computes with them and are natural numbers in the loops; a vector is dense by
  construction, as a list is.
\<close>

record HeapNode =
  hvalue :: int
  hid :: int

record MinHeap =
  heap :: "HeapNode list"
  heapNextNodeId :: int

definition MinHeap_init :: MinHeap where
  "MinHeap_init = \<lparr>heap = [], heapNextNodeId = 0\<rparr>"

text \<open>
  \<^verbatim>\<open>parent(i) = (i - 1) / 2\<close> on C++ ints truncates toward zero; on naturals the
  truncating subtraction gives the same result for every \<open>i \<ge> 0\<close> (both give 0 at 0).
\<close>

definition parent :: "nat \<Rightarrow> nat" where
  "parent i = (i - 1) div 2"

definition leftChild :: "nat \<Rightarrow> nat" where
  "leftChild i = 2 * i + 1"

definition rightChild :: "nat \<Rightarrow> nat" where
  "rightChild i = 2 * i + 2"

definition swap :: "HeapNode list \<Rightarrow> nat \<Rightarrow> nat \<Rightarrow> HeapNode list" where
  "swap h i j = (h[i := h ! j])[j := h ! i]"

text \<open>The sift-up loop of \<^verbatim>\<open>insert\<close> and \<^verbatim>\<open>remove\<close>:
  \<^verbatim>\<open>while (current > 0 && heap[parent(current)]->value > heap[current]->value)\<close>.\<close>

function siftUp :: "HeapNode list \<Rightarrow> nat \<Rightarrow> nat list \<Rightarrow> HeapNode list \<times> nat \<times> nat list" where
  "siftUp h current siftPath =
     (if current > 0 \<and> hvalue (h ! parent current) > hvalue (h ! current)
      then siftUp (swap h current (parent current)) (parent current)
                  (siftPath @ [parent current])
      else (h, current, siftPath))"
  by pat_completeness auto
termination
  by (relation "measure (\<lambda>(h, current, siftPath). current)") (auto simp: parent_def)

declare siftUp.simps [simp del]

text \<open>One pass of the sift-down loop body chooses \<^verbatim>\<open>smallest\<close> among the current
  slot and its existing children.\<close>

definition smallestOf :: "HeapNode list \<Rightarrow> nat \<Rightarrow> nat" where
  "smallestOf h current =
     (let smallest = current;
          left = leftChild current;
          right = rightChild current;
          smallest = (if left < length h \<and> hvalue (h ! left) < hvalue (h ! smallest)
                      then left else smallest);
          smallest = (if right < length h \<and> hvalue (h ! right) < hvalue (h ! smallest)
                      then right else smallest)
      in smallest)"

lemma smallestOf_cases:
  "smallestOf h c = c \<or>
   (smallestOf h c = leftChild c \<and> leftChild c < length h) \<or>
   (smallestOf h c = rightChild c \<and> rightChild c < length h)"
  by (auto simp: smallestOf_def Let_def)

lemma length_swap [simp]: "length (swap h i j) = length h"
  by (simp add: swap_def)

function siftDown :: "HeapNode list \<Rightarrow> nat \<Rightarrow> nat list \<Rightarrow> HeapNode list \<times> nat \<times> nat list" where
  "siftDown h current siftPath =
     (if smallestOf h current \<noteq> current
      then siftDown (swap h current (smallestOf h current)) (smallestOf h current)
                    (siftPath @ [smallestOf h current])
      else (h, current, siftPath))"
  by pat_completeness auto
termination
proof (relation "measure (\<lambda>(h, current, siftPath). length h - current)", goal_cases)
  case 1
  show ?case by simp
next
  case (2 h current siftPath)
  then show ?case
    using smallestOf_cases [of h current]
    by (auto simp: leftChild_def rightChild_def)
qed

declare siftDown.simps [simp del]

definition MinHeap_insert :: "MinHeap \<Rightarrow> int \<Rightarrow> nat list \<Rightarrow> MinHeap \<times> nat list" where
  "MinHeap_insert mh v siftPath =
     (let newNode = \<lparr>hvalue = v, hid = heapNextNodeId mh\<rparr>;
          h = heap mh @ [newNode];
          current = length h - 1;
          (h', current', siftPath') = siftUp h current (siftPath @ [current])
      in (mh\<lparr>heap := h', heapNextNodeId := heapNextNodeId mh + 1\<rparr>, siftPath'))"

definition MinHeap_extractMin :: "MinHeap \<Rightarrow> nat list \<Rightarrow> MinHeap \<times> HeapNode option \<times> nat list" where
  "MinHeap_extractMin mh siftPath =
     (if heap mh = [] then (mh, None, siftPath)
      else
        let minNode = heap mh ! 0;
            siftPath1 = siftPath @ [0];
            h = butlast ((heap mh)[0 := last (heap mh)])
        in if h \<noteq> []
           then (let (h', current', siftPath') = siftDown h 0 siftPath1
                 in (mh\<lparr>heap := h'\<rparr>, Some minNode, siftPath'))
           else (mh\<lparr>heap := h\<rparr>, Some minNode, siftPath1))"

definition MinHeap_peekMin :: "MinHeap \<Rightarrow> HeapNode option" where
  "MinHeap_peekMin mh = (if heap mh = [] then None else Some (heap mh ! 0))"

text \<open>The scanning loop of \<^verbatim>\<open>search\<close>: every visited index is appended to the
  path; the result is the first matching index or \<open>-1\<close>.\<close>

fun searchFrom :: "HeapNode list \<Rightarrow> int \<Rightarrow> nat \<Rightarrow> nat list \<Rightarrow> int \<times> nat list" where
  "searchFrom [] v i searchPath = (-1, searchPath)"
| "searchFrom (x # xs) v i searchPath =
     (if hvalue x = v then (int i, searchPath @ [i])
      else searchFrom xs v (Suc i) (searchPath @ [i]))"

definition MinHeap_search :: "MinHeap \<Rightarrow> int \<Rightarrow> nat list \<Rightarrow> MinHeap \<times> int \<times> nat list" where
  "MinHeap_search mh v searchPath = (mh, searchFrom (heap mh) v 0 searchPath)"

text \<open>The scanning loop of \<^verbatim>\<open>remove\<close>: \<open>index\<close> starts at \<open>-1\<close> and is set at the
  first match.\<close>

fun findIndex :: "HeapNode list \<Rightarrow> int \<Rightarrow> nat \<Rightarrow> int" where
  "findIndex [] v i = -1"
| "findIndex (x # xs) v i = (if hvalue x = v then int i else findIndex xs v (Suc i))"

definition MinHeap_remove :: "MinHeap \<Rightarrow> int \<Rightarrow> nat list \<Rightarrow> MinHeap \<times> bool \<times> nat list" where
  "MinHeap_remove mh v siftPath =
     (let index = findIndex (heap mh) v 0
      in if index = -1 then (mh, False, siftPath)
         else
           let siftPath1 = siftPath @ [nat index];
               h = butlast ((heap mh)[nat index := last (heap mh)])
           in if nat index < length h
              then (let (h1, current1, siftPath2) = siftDown h (nat index) siftPath1;
                        (h2, current2, siftPath3) = siftUp h1 current1 siftPath2
                    in (mh\<lparr>heap := h2\<rparr>, True, siftPath3))
              else (mh\<lparr>heap := h\<rparr>, True, siftPath1))"

definition MinHeap_clear :: "MinHeap \<Rightarrow> MinHeap" where
  "MinHeap_clear mh = mh\<lparr>heap := []\<rparr>"

text \<open>\<^verbatim>\<open>heap[index]\<close> on a \<^verbatim>\<open>std::vector\<close> is defined only for
  \<open>0 \<le> index < size\<close>; a read outside that range is a fault of the program, not a
  value. \<open>vectorAt\<close> is that partial read.\<close>

datatype fault = OutOfBounds

definition vectorAt :: "'a list \<Rightarrow> int \<Rightarrow> fault + 'a" where
  "vectorAt xs i =
     (if 0 \<le> i \<and> i < int (length xs) then Inr (xs ! nat i) else Inl OutOfBounds)"

text \<open>\<^verbatim>\<open>getNode\<close> is not declared \<^verbatim>\<open>const\<close>; the model returns the heap object with
  the result, as for \<^verbatim>\<open>search\<close>. The result is \<open>Inl\<close> of the fault if the read
  faults, and otherwise the heap with the returned pointer (\<open>None\<close> is \<^verbatim>\<open>nullptr\<close>).\<close>

definition MinHeap_getNode :: "MinHeap \<Rightarrow> int \<Rightarrow> fault + (MinHeap \<times> HeapNode option)" where
  "MinHeap_getNode mh index =
     (if index \<ge> 0 \<and> index < int (length (heap mh))
      then (case vectorAt (heap mh) index of
              Inl e \<Rightarrow> Inl e
            | Inr node \<Rightarrow> Inr (mh, Some node))
      else Inr (mh, None))"

definition MinHeap_getSize :: "MinHeap \<Rightarrow> int" where
  "MinHeap_getSize mh = int (length (heap mh))"

text \<open>Extract-min repeated until the heap is empty, collecting the extracted values:
  the driver of the heap-sort property.\<close>

lemma length_siftDown: "length (fst (siftDown h c p)) = length h"
  by (induction h c p rule: siftDown.induct) (simp add: siftDown.simps)

function extractAll :: "MinHeap \<Rightarrow> int list" where
  "extractAll mh =
     (case MinHeap_extractMin mh [] of
        (mh', None, siftPath) \<Rightarrow> []
      | (mh', Some minNode, siftPath) \<Rightarrow> hvalue minNode # extractAll mh')"
  by pat_completeness auto
termination
proof (relation "measure (\<lambda>mh. length (heap mh))", goal_cases)
  case 1
  show ?case by simp
next
  case (2 mh x mh' y siftPath minNode)
  have "length (fst (siftDown (butlast ((heap mh)[0 := last (heap mh)])) 0 [0]))
          = length (heap mh) - 1"
    by (simp add: length_siftDown)
  with 2 show ?case
    by (auto simp: MinHeap_extractMin_def Let_def split: if_splits prod.splits)
qed

declare extractAll.simps [simp del]

fun insertAll :: "MinHeap \<Rightarrow> int list \<Rightarrow> MinHeap" where
  "insertAll mh [] = mh"
| "insertAll mh (v # vs) = insertAll (fst (MinHeap_insert mh v [])) vs"

subsection \<open>Stack (Stack.h, Stack.cpp)\<close>

text \<open>A cell is a value with its identifier; a pointer to a cell is modelled by the
  cell, whose fields never change after creation.\<close>

record StackNode =
  svalue :: int
  sid :: int

record Stack =
  stackElements :: "StackNode list"
  stackNextNodeId :: int

definition Stack_init :: Stack where
  "Stack_init = \<lparr>stackElements = [], stackNextNodeId = 0\<rparr>"

definition Stack_push :: "Stack \<Rightarrow> int \<Rightarrow> Stack \<times> StackNode" where
  "Stack_push st v =
     (let newNode = \<lparr>svalue = v, sid = stackNextNodeId st\<rparr>
      in (st\<lparr>stackElements := stackElements st @ [newNode],
              stackNextNodeId := stackNextNodeId st + 1\<rparr>, newNode))"

definition Stack_pop :: "Stack \<Rightarrow> Stack \<times> StackNode option" where
  "Stack_pop st =
     (if stackElements st = [] then (st, None)
      else (st\<lparr>stackElements := butlast (stackElements st)\<rparr>,
            Some (last (stackElements st))))"

definition Stack_peek :: "Stack \<Rightarrow> StackNode option" where
  "Stack_peek st = (if stackElements st = [] then None else Some (last (stackElements st)))"

text \<open>The loop \<^verbatim>\<open>for (int i = size - 1; i >= 0; i--)\<close>; the counter of the model is
  \<open>i + 1\<close>.\<close>

fun stackSearchLoop :: "StackNode list \<Rightarrow> nat \<Rightarrow> int \<Rightarrow> StackNode list
      \<Rightarrow> StackNode option \<times> StackNode list" where
  "stackSearchLoop elements 0 v path = (None, path)"
| "stackSearchLoop elements (Suc i) v path =
     (if svalue (elements ! i) = v then (Some (elements ! i), path @ [elements ! i])
      else stackSearchLoop elements i v (path @ [elements ! i]))"

definition Stack_search :: "Stack \<Rightarrow> int \<Rightarrow> StackNode list
      \<Rightarrow> Stack \<times> StackNode option \<times> StackNode list" where
  "Stack_search st v path =
     (st, stackSearchLoop (stackElements st) (length (stackElements st)) v path)"

definition Stack_contains :: "Stack \<Rightarrow> int \<Rightarrow> Stack \<times> bool" where
  "Stack_contains st v =
     (case Stack_search st v [] of (st', found, path) \<Rightarrow> (st', found \<noteq> None))"

subsection \<open>Queue (Queue.h, Queue.cpp)\<close>

record QueueNode =
  qvalue :: int
  qid :: int

record Queue =
  queueElements :: "QueueNode list"
  queueNextNodeId :: int

definition Queue_init :: Queue where
  "Queue_init = \<lparr>queueElements = [], queueNextNodeId = 0\<rparr>"

definition Queue_enqueue :: "Queue \<Rightarrow> int \<Rightarrow> Queue \<times> QueueNode" where
  "Queue_enqueue q v =
     (let newNode = \<lparr>qvalue = v, qid = queueNextNodeId q\<rparr>
      in (q\<lparr>queueElements := queueElements q @ [newNode],
             queueNextNodeId := queueNextNodeId q + 1\<rparr>, newNode))"

definition Queue_dequeue :: "Queue \<Rightarrow> Queue \<times> QueueNode option" where
  "Queue_dequeue q =
     (case queueElements q of
        [] \<Rightarrow> (q, None)
      | frontNode # rest \<Rightarrow> (q\<lparr>queueElements := rest\<rparr>, Some frontNode))"

text \<open>The loop \<^verbatim>\<open>for (size_t i = 0; i < elements.size(); i++)\<close>, by recursion on the
  cells from index \<open>i\<close> on.\<close>

fun queueSearchLoop :: "QueueNode list \<Rightarrow> int \<Rightarrow> QueueNode list
      \<Rightarrow> QueueNode option \<times> QueueNode list" where
  "queueSearchLoop [] v path = (None, path)"
| "queueSearchLoop (x # xs) v path =
     (if qvalue x = v then (Some x, path @ [x]) else queueSearchLoop xs v (path @ [x]))"

definition Queue_search :: "Queue \<Rightarrow> int \<Rightarrow> QueueNode list
      \<Rightarrow> Queue \<times> QueueNode option \<times> QueueNode list" where
  "Queue_search q v path = (q, queueSearchLoop (queueElements q) v path)"

definition Queue_contains :: "Queue \<Rightarrow> int \<Rightarrow> Queue \<times> bool" where
  "Queue_contains q v =
     (case Queue_search q v [] of (q', found, path) \<Rightarrow> (q', found \<noteq> None))"


subsection \<open>Singly linked list (LinkedList.h, LinkedList.cpp)\<close>

text \<open>
  The list is a pointer structure with two entry points, \<^verbatim>\<open>head\<close> and \<^verbatim>\<open>tail\<close>,
  that alias its first and last node, so it is modelled over an explicit store: a partial
  map from addresses to node records; \<open>None\<close> is the null pointer. \<^verbatim>\<open>new\<close> has to
  return an address that is not in use: the model places the node created with identifier
  \<open>n\<close> at address \<open>n\<close>, which the counter never hands out twice. The traversal loops
  follow \<^verbatim>\<open>next\<close> pointers and need not end on a cyclic store; they return \<open>None\<close>
  when they do not return, and also when they dereference an address outside the store.
\<close>

type_synonym addr = int

record ListNode =
  lvalue :: int
  lnext :: "addr option"
  lid :: int

record LinkedList =
  mem :: "addr \<Rightarrow> ListNode option"
  head :: "addr option"
  tail :: "addr option"
  listNextNodeId :: int
  listSize :: int

definition LinkedList_init :: LinkedList where
  "LinkedList_init =
     \<lparr>mem = Map.empty, head = None, tail = None, listNextNodeId = 0, listSize = 0\<rparr>"

text \<open>\<^verbatim>\<open>while (current != nullptr) { path.push_back(current); current = current->next; }\<close>\<close>

partial_function (option) traverseLoop ::
  "(addr \<Rightarrow> ListNode option) \<Rightarrow> addr option \<Rightarrow> addr list \<Rightarrow> addr list option" where
  "traverseLoop m current path =
     (case current of
        None \<Rightarrow> Some path
      | Some a \<Rightarrow>
          (case m a of
             None \<Rightarrow> None
           | Some n \<Rightarrow> traverseLoop m (lnext n) (path @ [a])))"

definition LinkedList_insertAtTail ::
  "LinkedList \<Rightarrow> int \<Rightarrow> addr list \<Rightarrow> (LinkedList \<times> bool \<times> addr list) option" where
  "LinkedList_insertAtTail ll v path =
     (let newNode = listNextNodeId ll;
          m = (mem ll)(newNode \<mapsto> \<lparr>lvalue = v, lnext = None, lid = listNextNodeId ll\<rparr>);
          ll1 = ll\<lparr>mem := m, listNextNodeId := listNextNodeId ll + 1\<rparr>
      in if head ll1 = None
         then Some (ll1\<lparr>head := Some newNode, tail := Some newNode,
                        listSize := listSize ll1 + 1\<rparr>, True, path @ [newNode])
         else
           (case traverseLoop m (head ll1) path of
              None \<Rightarrow> None
            | Some path1 \<Rightarrow>
                (case tail ll1 of
                   None \<Rightarrow> None
                 | Some t \<Rightarrow>
                     (case m t of
                        None \<Rightarrow> None
                      | Some tn \<Rightarrow>
                          Some (ll1\<lparr>mem := m(t \<mapsto> tn\<lparr>lnext := Some newNode\<rparr>),
                                    tail := Some newNode,
                                    listSize := listSize ll1 + 1\<rparr>,
                                True, path1 @ [newNode])))))"

definition LinkedList_insertAtHead ::
  "LinkedList \<Rightarrow> int \<Rightarrow> addr list \<Rightarrow> LinkedList \<times> bool \<times> addr list" where
  "LinkedList_insertAtHead ll v path =
     (let newNode = listNextNodeId ll;
          n = \<lparr>lvalue = v, lnext = None, lid = listNextNodeId ll\<rparr>;
          ll1 = ll\<lparr>listNextNodeId := listNextNodeId ll + 1\<rparr>;
          ll2 = (if head ll1 = None
                 then ll1\<lparr>mem := (mem ll1)(newNode \<mapsto> n),
                          head := Some newNode, tail := Some newNode\<rparr>
                 else ll1\<lparr>mem := (mem ll1)(newNode \<mapsto> n\<lparr>lnext := head ll1\<rparr>),
                          head := Some newNode\<rparr>)
      in (ll2\<lparr>listSize := listSize ll2 + 1\<rparr>, True, path @ [newNode]))"

text \<open>The search loop of \<^verbatim>\<open>remove\<close>, entered with \<^verbatim>\<open>prev\<close> and \<^verbatim>\<open>current\<close>.
  The result is the list, the returned flag, the path and \<^verbatim>\<open>deletedNode\<close>.\<close>

partial_function (option) removeLoop ::
  "LinkedList \<Rightarrow> addr \<Rightarrow> addr option \<Rightarrow> int \<Rightarrow> addr list
     \<Rightarrow> (LinkedList \<times> bool \<times> addr list \<times> addr option) option" where
  "removeLoop ll prev current v path =
     (case current of
        None \<Rightarrow> Some (ll, False, path, None)
      | Some c \<Rightarrow>
          (case mem ll c of
             None \<Rightarrow> None
           | Some cn \<Rightarrow>
               if lvalue cn = v
               then (case mem ll prev of
                       None \<Rightarrow> None
                     | Some pn \<Rightarrow>
                         Some (ll\<lparr>mem := (mem ll)(prev \<mapsto> pn\<lparr>lnext := lnext cn\<rparr>),
                                  tail := (if Some c = tail ll then Some prev else tail ll),
                                  listSize := listSize ll - 1\<rparr>,
                               True, path @ [c], Some c))
               else removeLoop ll c (lnext cn) v (path @ [c])))"

definition LinkedList_remove ::
  "LinkedList \<Rightarrow> int \<Rightarrow> addr list
     \<Rightarrow> (LinkedList \<times> bool \<times> addr list \<times> addr option) option" where
  "LinkedList_remove ll v path =
     (case head ll of
        None \<Rightarrow> Some (ll, False, path, None)
      | Some h \<Rightarrow>
          (case mem ll h of
             None \<Rightarrow> None
           | Some hn \<Rightarrow>
               if lvalue hn = v
               then (let ll1 = ll\<lparr>head := lnext hn\<rparr>;
                         ll2 = (if head ll1 = None then ll1\<lparr>tail := None\<rparr> else ll1)
                     in Some (ll2\<lparr>listSize := listSize ll2 - 1\<rparr>, True, path @ [h], Some h))
               else removeLoop ll h (lnext hn) v (path @ [h])))"

partial_function (option) listSearchLoop ::
  "(addr \<Rightarrow> ListNode option) \<Rightarrow> addr option \<Rightarrow> int \<Rightarrow> addr list
     \<Rightarrow> (addr option \<times> addr list) option" where
  "listSearchLoop m current v path =
     (case current of
        None \<Rightarrow> Some (None, path)
      | Some a \<Rightarrow>
          (case m a of
             None \<Rightarrow> None
           | Some n \<Rightarrow>
               if lvalue n = v then Some (Some a, path @ [a])
               else listSearchLoop m (lnext n) v (path @ [a])))"

definition LinkedList_search ::
  "LinkedList \<Rightarrow> int \<Rightarrow> addr list \<Rightarrow> (LinkedList \<times> addr option \<times> addr list) option" where
  "LinkedList_search ll v path =
     (case listSearchLoop (mem ll) (head ll) v path of
        None \<Rightarrow> None
      | Some (found, path') \<Rightarrow> Some (ll, found, path'))"

definition LinkedList_contains :: "LinkedList \<Rightarrow> int \<Rightarrow> (LinkedList \<times> bool) option" where
  "LinkedList_contains ll v =
     (case LinkedList_search ll v [] of
        None \<Rightarrow> None
      | Some (ll', found, path) \<Rightarrow> Some (ll', found \<noteq> None))"

text \<open>\<^verbatim>\<open>clear\<close> deletes every node reached from the head.\<close>

partial_function (option) clearLoop ::
  "(addr \<Rightarrow> ListNode option) \<Rightarrow> addr option \<Rightarrow> (addr \<Rightarrow> ListNode option) option" where
  "clearLoop m current =
     (case current of
        None \<Rightarrow> Some m
      | Some a \<Rightarrow>
          (case m a of
             None \<Rightarrow> None
           | Some n \<Rightarrow> clearLoop (m(a := None)) (lnext n)))"

definition LinkedList_clear :: "LinkedList \<Rightarrow> LinkedList option" where
  "LinkedList_clear ll =
     (case clearLoop (mem ll) (head ll) of
        None \<Rightarrow> None
      | Some m \<Rightarrow> Some (ll\<lparr>mem := m, head := None, tail := None, listSize := 0\<rparr>))"


subsection \<open>Binary search tree (BST.h, BST.cpp)\<close>

text \<open>
  The tree is strictly hierarchical (every node is owned by its parent), so it is a
  datatype; \<open>Null\<close> is the null pointer. A reference to a node, as stored in a trace or
  handed out as \<^verbatim>\<open>deletedNode\<close> and \<^verbatim>\<open>successor\<close>, is modelled by the node's
  identifier, which the source assigns from the container's counter at creation and never
  changes; the presenter reads references through \<^verbatim>\<open>->id\<close> only.
\<close>

datatype node = Null | Node (nvalue: int) (nleft: node) (nright: node) (nid: int)

text \<open>The reference parameters of the helpers and the counter they share.\<close>

record bst_ctx =
  b_success :: bool
  b_path :: "int list"
  b_deletedNode :: "int option"
  b_successor :: "int option"
  b_nextNodeId :: int

record BST =
  bstRoot :: node
  bstNextNodeId :: int

definition BST_init :: BST where
  "BST_init = \<lparr>bstRoot = Null, bstNextNodeId = 0\<rparr>"

fun BST_insertHelper :: "node \<Rightarrow> int \<Rightarrow> bst_ctx \<Rightarrow> node \<times> bst_ctx" where
  "BST_insertHelper Null v c =
     (Node v Null Null (b_nextNodeId c),
      c\<lparr>b_path := b_path c @ [b_nextNodeId c], b_nextNodeId := b_nextNodeId c + 1\<rparr>)"
| "BST_insertHelper (Node x l r i) v c =
     (let c1 = c\<lparr>b_path := b_path c @ [i]\<rparr>
      in if v < x then (case BST_insertHelper l v c1 of (l', c2) \<Rightarrow> (Node x l' r i, c2))
         else if v > x then (case BST_insertHelper r v c1 of (r', c2) \<Rightarrow> (Node x l r' i, c2))
         else (Node x l r i, c1\<lparr>b_success := False\<rparr>))"

text \<open>The public operations return the tree object and the final values of the
  reference parameters (\<open>b_success\<close> is the returned flag).\<close>

definition BST_insert :: "BST \<Rightarrow> int \<Rightarrow> int list \<Rightarrow> BST \<times> bst_ctx" where
  "BST_insert t v path =
     (case BST_insertHelper (bstRoot t) v
             \<lparr>b_success = True, b_path = path, b_deletedNode = None, b_successor = None,
              b_nextNodeId = bstNextNodeId t\<rparr> of
        (root', c) \<Rightarrow> (\<lparr>bstRoot = root', bstNextNodeId = b_nextNodeId c\<rparr>, c))"

fun BST_findMin :: "node \<Rightarrow> node" where
  "BST_findMin Null = Null"
| "BST_findMin (Node x l r i) = (if l \<noteq> Null then BST_findMin l else Node x l r i)"

fun BST_findMinWithPath :: "node \<Rightarrow> int list \<Rightarrow> node \<times> int list" where
  "BST_findMinWithPath Null path = (Null, path)"
| "BST_findMinWithPath (Node x l r i) path =
     (if l \<noteq> Null then BST_findMinWithPath l (path @ [i]) else (Node x l r i, path @ [i]))"

text \<open>In the two-children case the recursive call works on temporaries
  (\<^verbatim>\<open>tempSuccess\<close>, \<^verbatim>\<open>tempPath\<close>, \<^verbatim>\<open>tempDeleted\<close>, \<^verbatim>\<open>tempSuccessor\<close>), whose final
  values are dropped. \<^verbatim>\<open>successor\<close> is not null there, since the right child is not.\<close>

fun BST_deleteHelper :: "node \<Rightarrow> int \<Rightarrow> bst_ctx \<Rightarrow> node \<times> bst_ctx" where
  "BST_deleteHelper Null v c = (Null, c\<lparr>b_success := False\<rparr>)"
| "BST_deleteHelper (Node x l r i) v c =
     (let c1 = c\<lparr>b_path := b_path c @ [i]\<rparr>
      in if v < x then (case BST_deleteHelper l v c1 of (l', c2) \<Rightarrow> (Node x l' r i, c2))
         else if v > x then (case BST_deleteHelper r v c1 of (r', c2) \<Rightarrow> (Node x l r' i, c2))
         else
           let c2 = c1\<lparr>b_deletedNode := Some i\<rparr>
           in if l = Null then (r, c2)
              else if r = Null then (l, c2)
              else
                (case BST_findMinWithPath r [] of
                   (successor, successorPath) \<Rightarrow>
                     let c3 = c2\<lparr>b_successor := Some (nid successor),
                                 b_path := b_path c2 @ successorPath\<rparr>;
                         temp = \<lparr>b_success = True, b_path = [], b_deletedNode = None,
                                 b_successor = None, b_nextNodeId = b_nextNodeId c3\<rparr>
                     in (case BST_deleteHelper r (nvalue successor) temp of
                           (r', ctemp) \<Rightarrow> (Node (nvalue successor) l r' i, c3))))"

definition BST_remove :: "BST \<Rightarrow> int \<Rightarrow> int list \<Rightarrow> BST \<times> bst_ctx" where
  "BST_remove t v path =
     (case BST_deleteHelper (bstRoot t) v
             \<lparr>b_success = True, b_path = path, b_deletedNode = None, b_successor = None,
              b_nextNodeId = bstNextNodeId t\<rparr> of
        (root', c) \<Rightarrow> (\<lparr>bstRoot = root', bstNextNodeId = b_nextNodeId c\<rparr>, c))"

fun BST_searchHelper :: "node \<Rightarrow> int \<Rightarrow> int list \<Rightarrow> int option \<times> int list" where
  "BST_searchHelper Null v path = (None, path)"
| "BST_searchHelper (Node x l r i) v path =
     (if v < x then BST_searchHelper l v (path @ [i])
      else if v > x then BST_searchHelper r v (path @ [i])
      else (Some i, path @ [i]))"

definition BST_search :: "BST \<Rightarrow> int \<Rightarrow> int list \<Rightarrow> BST \<times> int option \<times> int list" where
  "BST_search t v path = (t, BST_searchHelper (bstRoot t) v path)"

definition BST_contains :: "BST \<Rightarrow> int \<Rightarrow> BST \<times> bool" where
  "BST_contains t v =
     (case BST_search t v [] of (t', found, path) \<Rightarrow> (t', found \<noteq> None))"

definition BST_clear :: "BST \<Rightarrow> BST" where
  "BST_clear t = t\<lparr>bstRoot := Null\<rparr>"

fun BST_inorderHelper :: "node \<Rightarrow> int list \<Rightarrow> int list" where
  "BST_inorderHelper Null result = result"
| "BST_inorderHelper (Node x l r i) result =
     BST_inorderHelper r (BST_inorderHelper l result @ [x])"

definition BST_inorderTraversal :: "BST \<Rightarrow> int list" where
  "BST_inorderTraversal t = BST_inorderHelper (bstRoot t) []"


subsection \<open>AVL tree (AVLTree.h, AVLTree.cpp)\<close>

text \<open>
  As for the search tree, with the cached height as a fourth field. The rotations and
  the rebalancing of \<^verbatim>\<open>insertHelper\<close> dereference a child without a null check; the
  helpers return \<open>None\<close> where the source would dereference the null pointer.
\<close>

datatype avlnode =
  AVLNull | AVLNode (avalue: int) (aleft: avlnode) (aright: avlnode) (aheight: int) (aid: int)

datatype RotationType = NONE | LEFT | RIGHT | LEFT_RIGHT | RIGHT_LEFT

text \<open>The reference parameters of the helpers and the counter. \<open>a_rotations\<close> is a
  ghost field: the sequence of all values assigned to \<^verbatim>\<open>rotation\<close> during the call, in
  the order of assignment. No operation reads it.\<close>

record avl_ctx =
  a_success :: bool
  a_path :: "int list"
  a_deletedNode :: "int option"
  a_rotation :: RotationType
  a_rotations :: "RotationType list"
  a_nextNodeId :: int

record AVLTree =
  avlRoot :: avlnode
  avlNextNodeId :: int

definition AVLTree_init :: AVLTree where
  "AVLTree_init = \<lparr>avlRoot = AVLNull, avlNextNodeId = 0\<rparr>"

fun getHeight :: "avlnode \<Rightarrow> int" where
  "getHeight AVLNull = 0"
| "getHeight (AVLNode x l r h i) = h"

fun getBalance :: "avlnode \<Rightarrow> int" where
  "getBalance AVLNull = 0"
| "getBalance (AVLNode x l r h i) = getHeight l - getHeight r"

fun updateHeight :: "avlnode \<Rightarrow> avlnode" where
  "updateHeight AVLNull = AVLNull"
| "updateHeight (AVLNode x l r h i) = AVLNode x l r (1 + max (getHeight l) (getHeight r)) i"

fun rotateRight :: "avlnode \<Rightarrow> avlnode option" where
  "rotateRight (AVLNode yv (AVLNode xv t1 t2 xh xi) t3 yh yi) =
     Some (updateHeight (AVLNode xv t1 (updateHeight (AVLNode yv t2 t3 yh yi)) xh xi))"
| "rotateRight _ = None"

fun rotateLeft :: "avlnode \<Rightarrow> avlnode option" where
  "rotateLeft (AVLNode xv t1 (AVLNode yv t2 t3 yh yi) xh xi) =
     Some (updateHeight (AVLNode yv (updateHeight (AVLNode xv t1 t2 xh xi)) t3 yh yi))"
| "rotateLeft _ = None"

definition setRotation :: "RotationType \<Rightarrow> avl_ctx \<Rightarrow> avl_ctx" where
  "setRotation rot c = c\<lparr>a_rotation := rot, a_rotations := a_rotations c @ [rot]\<rparr>"

text \<open>The tail of \<^verbatim>\<open>insertHelper\<close> after the recursive call: height update and the
  four cases, in the order of the source. A case that reads \<^verbatim>\<open>node->left->value\<close>
  (or \<^verbatim>\<open>right\<close>) is preceded by the null check the source does not make.\<close>

fun insertRebalance :: "avlnode \<Rightarrow> int \<Rightarrow> avl_ctx \<Rightarrow> (avlnode \<times> avl_ctx) option" where
  "insertRebalance AVLNull v c = None"
| "insertRebalance (AVLNode x l r h i) v c =
     (let node = updateHeight (AVLNode x l r h i);
          balance = getBalance node
      in if balance > 1 \<and> l = AVLNull then None
         else if balance > 1 \<and> v < avalue l
           then map_option (\<lambda>n. (n, setRotation RIGHT c)) (rotateRight node)
         else if balance < -1 \<and> r = AVLNull then None
         else if balance < -1 \<and> v > avalue r
           then map_option (\<lambda>n. (n, setRotation LEFT c)) (rotateLeft node)
         else if balance > 1 \<and> v > avalue l
           then (case rotateLeft l of
                   None \<Rightarrow> None
                 | Some l' \<Rightarrow>
                     map_option (\<lambda>n. (n, setRotation LEFT_RIGHT c))
                       (rotateRight (AVLNode x l' r (aheight node) i)))
         else if balance < -1 \<and> v < avalue r
           then (case rotateRight r of
                   None \<Rightarrow> None
                 | Some r' \<Rightarrow>
                     map_option (\<lambda>n. (n, setRotation RIGHT_LEFT c))
                       (rotateLeft (AVLNode x l r' (aheight node) i)))
         else Some (node, c))"

fun AVLTree_insertHelper :: "avlnode \<Rightarrow> int \<Rightarrow> avl_ctx \<Rightarrow> (avlnode \<times> avl_ctx) option" where
  "AVLTree_insertHelper AVLNull v c =
     Some (AVLNode v AVLNull AVLNull 1 (a_nextNodeId c),
           c\<lparr>a_path := a_path c @ [a_nextNodeId c], a_nextNodeId := a_nextNodeId c + 1\<rparr>)"
| "AVLTree_insertHelper (AVLNode x l r h i) v c =
     (let c1 = c\<lparr>a_path := a_path c @ [i]\<rparr>
      in if v < x
         then (case AVLTree_insertHelper l v c1 of
                 None \<Rightarrow> None
               | Some (l', c2) \<Rightarrow> insertRebalance (AVLNode x l' r h i) v c2)
         else if v > x
         then (case AVLTree_insertHelper r v c1 of
                 None \<Rightarrow> None
               | Some (r', c2) \<Rightarrow> insertRebalance (AVLNode x l r' h i) v c2)
         else Some (AVLNode x l r h i, c1\<lparr>a_success := False\<rparr>))"

definition AVLTree_insert :: "AVLTree \<Rightarrow> int \<Rightarrow> int list \<Rightarrow> (AVLTree \<times> avl_ctx) option" where
  "AVLTree_insert t v path =
     (case AVLTree_insertHelper (avlRoot t) v
             \<lparr>a_success = True, a_path = path, a_deletedNode = None, a_rotation = NONE,
              a_rotations = [], a_nextNodeId = avlNextNodeId t\<rparr> of
        None \<Rightarrow> None
      | Some (root', c) \<Rightarrow> Some (\<lparr>avlRoot = root', avlNextNodeId = a_nextNodeId c\<rparr>, c))"

fun AVLTree_findMin :: "avlnode \<Rightarrow> avlnode" where
  "AVLTree_findMin AVLNull = AVLNull"
| "AVLTree_findMin (AVLNode x l r h i) =
     (if l \<noteq> AVLNull then AVLTree_findMin l else AVLNode x l r h i)"

text \<open>The tail of \<^verbatim>\<open>deleteHelper\<close>: height update and the four cases decided by the
  balance factors. \<^verbatim>\<open>getBalance\<close> is null-safe; the rotations are not.\<close>

fun deleteRebalance :: "avlnode \<Rightarrow> avl_ctx \<Rightarrow> (avlnode \<times> avl_ctx) option" where
  "deleteRebalance AVLNull c = Some (AVLNull, c)"
| "deleteRebalance (AVLNode x l r h i) c =
     (let node = updateHeight (AVLNode x l r h i);
          balance = getBalance node
      in if balance > 1 \<and> getBalance l \<ge> 0
           then map_option (\<lambda>n. (n, setRotation RIGHT c)) (rotateRight node)
         else if balance > 1 \<and> getBalance l < 0
           then (case rotateLeft l of
                   None \<Rightarrow> None
                 | Some l' \<Rightarrow>
                     map_option (\<lambda>n. (n, setRotation LEFT_RIGHT c))
                       (rotateRight (AVLNode x l' r (aheight node) i)))
         else if balance < -1 \<and> getBalance r \<le> 0
           then map_option (\<lambda>n. (n, setRotation LEFT c)) (rotateLeft node)
         else if balance < -1 \<and> getBalance r > 0
           then (case rotateRight r of
                   None \<Rightarrow> None
                 | Some r' \<Rightarrow>
                     map_option (\<lambda>n. (n, setRotation RIGHT_LEFT c))
                       (rotateLeft (AVLNode x l r' (aheight node) i)))
         else Some (node, c))"

text \<open>The recursive call of the two-children case is made on the caller's own
  reference parameters, \<^verbatim>\<open>deletedNode\<close> included.\<close>

fun AVLTree_deleteHelper :: "avlnode \<Rightarrow> int \<Rightarrow> avl_ctx \<Rightarrow> (avlnode \<times> avl_ctx) option" where
  "AVLTree_deleteHelper AVLNull v c = Some (AVLNull, c\<lparr>a_success := False\<rparr>)"
| "AVLTree_deleteHelper (AVLNode x l r h i) v c =
     (let c1 = c\<lparr>a_path := a_path c @ [i]\<rparr>
      in if v < x
         then (case AVLTree_deleteHelper l v c1 of
                 None \<Rightarrow> None
               | Some (l', c2) \<Rightarrow> deleteRebalance (AVLNode x l' r h i) c2)
         else if v > x
         then (case AVLTree_deleteHelper r v c1 of
                 None \<Rightarrow> None
               | Some (r', c2) \<Rightarrow> deleteRebalance (AVLNode x l r' h i) c2)
         else
           let c2 = c1\<lparr>a_deletedNode := Some i\<rparr>
           in if l = AVLNull \<or> r = AVLNull
              then Some (if l \<noteq> AVLNull then l else r, c2)
              else
                (case AVLTree_findMin r of
                   AVLNull \<Rightarrow> None
                 | AVLNode tv tleft tright theight tid \<Rightarrow>
                     (case AVLTree_deleteHelper r tv c2 of
                        None \<Rightarrow> None
                      | Some (r', c3) \<Rightarrow> deleteRebalance (AVLNode tv l r' h i) c3)))"

definition AVLTree_remove :: "AVLTree \<Rightarrow> int \<Rightarrow> int list \<Rightarrow> (AVLTree \<times> avl_ctx) option" where
  "AVLTree_remove t v path =
     (case AVLTree_deleteHelper (avlRoot t) v
             \<lparr>a_success = True, a_path = path, a_deletedNode = None, a_rotation = NONE,
              a_rotations = [], a_nextNodeId = avlNextNodeId t\<rparr> of
        None \<Rightarrow> None
      | Some (root', c) \<Rightarrow> Some (\<lparr>avlRoot = root', avlNextNodeId = a_nextNodeId c\<rparr>, c))"

fun AVLTree_searchHelper :: "avlnode \<Rightarrow> int \<Rightarrow> int list \<Rightarrow> int option \<times> int list" where
  "AVLTree_searchHelper AVLNull v path = (None, path)"
| "AVLTree_searchHelper (AVLNode x l r h i) v path =
     (if v < x then AVLTree_searchHelper l v (path @ [i])
      else if v > x then AVLTree_searchHelper r v (path @ [i])
      else (Some i, path @ [i]))"

definition AVLTree_search :: "AVLTree \<Rightarrow> int \<Rightarrow> int list \<Rightarrow> AVLTree \<times> int option \<times> int list" where
  "AVLTree_search t v path = (t, AVLTree_searchHelper (avlRoot t) v path)"

definition AVLTree_contains :: "AVLTree \<Rightarrow> int \<Rightarrow> AVLTree \<times> bool" where
  "AVLTree_contains t v =
     (case AVLTree_search t v [] of (t', found, path) \<Rightarrow> (t', found \<noteq> None))"

definition AVLTree_clear :: "AVLTree \<Rightarrow> AVLTree" where
  "AVLTree_clear t = t\<lparr>avlRoot := AVLNull\<rparr>"

fun AVLTree_inorderHelper :: "avlnode \<Rightarrow> int list \<Rightarrow> int list" where
  "AVLTree_inorderHelper AVLNull result = result"
| "AVLTree_inorderHelper (AVLNode x l r h i) result =
     AVLTree_inorderHelper r (AVLTree_inorderHelper l result @ [x])"

definition AVLTree_inorderTraversal :: "AVLTree \<Rightarrow> int list" where
  "AVLTree_inorderTraversal t = AVLTree_inorderHelper (avlRoot t) []"



text \<open>The two rebalancing steps are unfolded only where a proof asks for it.\<close>

declare insertRebalance.simps [simp del] deleteRebalance.simps [simp del]

section \<open>Specification predicates and example states\<close>

subsection \<open>Min-heap\<close>

text \<open>A trace of sift-up steps: every entry after the first is the parent slot of the
  entry before it, which is not the root.\<close>

fun climbs :: "nat list \<Rightarrow> bool" where
  "climbs (a # b # rest) = (0 < a \<and> b = parent a \<and> climbs (b # rest))"
| "climbs _ = True"

subsection \<open>Linked list\<close>

text \<open>\<open>llist m p as\<close>: following \<^verbatim>\<open>next\<close> from \<open>p\<close> visits exactly the addresses
  \<open>as\<close>, all allocated, and ends at the null pointer. \<open>list_wf\<close> is the invariant of the
  class (section 3 of the specification): \<^verbatim>\<open>head\<close> starts such a chain, \<^verbatim>\<open>tail\<close> is
  its last node, \<^verbatim>\<open>size\<close> its length.\<close>

fun llist :: "(addr \<Rightarrow> ListNode option) \<Rightarrow> addr option \<Rightarrow> addr list \<Rightarrow> bool" where
  "llist m p [] = (p = None)"
| "llist m p (a # as) =
     (p = Some a \<and> (case m a of None \<Rightarrow> False | Some n \<Rightarrow> llist m (lnext n) as))"

definition list_wf :: "LinkedList \<Rightarrow> addr list \<Rightarrow> bool" where
  "list_wf ll as =
     (llist (mem ll) (head ll) as \<and> distinct as \<and>
      tail ll = (if as = [] then None else Some (last as)) \<and>
      listSize ll = int (length as))"

definition lvalues :: "(addr \<Rightarrow> ListNode option) \<Rightarrow> addr list \<Rightarrow> int list" where
  "lvalues m as = map (\<lambda>a. lvalue (the (m a))) as"

fun listInsertAll :: "LinkedList \<Rightarrow> int list \<Rightarrow> LinkedList option" where
  "listInsertAll ll [] = Some ll"
| "listInsertAll ll (v # vs) =
     (case LinkedList_insertAtTail ll v [] of
        None \<Rightarrow> None
      | Some (ll', ok, path) \<Rightarrow> listInsertAll ll' vs)"

text \<open>The list \<open>10 \<rightarrow> 20 \<rightarrow> 30\<close> of the specification's scenario, as three calls of
  \<^verbatim>\<open>insertAtTail\<close> on the empty list leave it.\<close>

definition list_10_20_30 :: LinkedList where
  "list_10_20_30 =
     \<lparr>mem = [0 \<mapsto> \<lparr>lvalue = 10, lnext = Some 1, lid = 0\<rparr>,
             1 \<mapsto> \<lparr>lvalue = 20, lnext = Some 2, lid = 1\<rparr>,
             2 \<mapsto> \<lparr>lvalue = 30, lnext = None, lid = 2\<rparr>],
      head = Some 0, tail = Some 2, listNextNodeId = 3, listSize = 3\<rparr>"

subsection \<open>Binary search tree\<close>

text \<open>The in-order value sequence, the order invariant of section 3 of the
  specification (every value in a left subtree is smaller, every value in a right subtree
  larger than the node's), and \<open>bst_holds t i v\<close>: the tree has a node with identifier
  \<open>i\<close> whose value is \<open>v\<close>.\<close>

fun bst_inorder :: "node \<Rightarrow> int list" where
  "bst_inorder Null = []"
| "bst_inorder (Node x l r i) = bst_inorder l @ x # bst_inorder r"

fun bst_ordered :: "node \<Rightarrow> bool" where
  "bst_ordered Null = True"
| "bst_ordered (Node x l r i) =
     ((\<forall>y \<in> set (bst_inorder l). y < x) \<and> (\<forall>y \<in> set (bst_inorder r). x < y) \<and>
      bst_ordered l \<and> bst_ordered r)"

fun bst_holds :: "node \<Rightarrow> int \<Rightarrow> int \<Rightarrow> bool" where
  "bst_holds Null i v = False"
| "bst_holds (Node x l r j) i v = ((j = i \<and> x = v) \<or> bst_holds l i v \<or> bst_holds r i v)"


text \<open>The tree of the specification's duplicate scenario, and a driver that inserts a
  list of values one after the other.\<close>

definition bst_50_30 :: BST where
  "bst_50_30 = \<lparr>bstRoot = Node 50 (Node 30 Null Null 1) Null 0, bstNextNodeId = 2\<rparr>"

fun bstInsertAll :: "BST \<Rightarrow> int list \<Rightarrow> BST" where
  "bstInsertAll t [] = t"
| "bstInsertAll t (v # vs) = bstInsertAll (fst (BST_insert t v [])) vs"

text \<open>The states of a tree object that the public operations reach from the empty
  tree.\<close>

inductive bst_reachable :: "BST \<Rightarrow> bool" where
  bst_init: "bst_reachable BST_init"
| bst_insert: "bst_reachable t \<Longrightarrow> BST_insert t v path = (t', c) \<Longrightarrow> bst_reachable t'"
| bst_remove: "bst_reachable t \<Longrightarrow> BST_remove t v path = (t', c) \<Longrightarrow> bst_reachable t'"
| bst_search: "bst_reachable t \<Longrightarrow> BST_search t v path = (t', found) \<Longrightarrow> bst_reachable t'"
| bst_contains: "bst_reachable t \<Longrightarrow> BST_contains t v = (t', b) \<Longrightarrow> bst_reachable t'"
| bst_clear: "bst_reachable t \<Longrightarrow> bst_reachable (BST_clear t)"

subsection \<open>AVL tree\<close>

text \<open>\<open>realHeight\<close> recomputes the height of a subtree from its shape: 0 for the null
  pointer, 1 for a leaf. \<open>avl_inv\<close> is the AVL invariant: at every node the cached
  height is the recomputed one and the balance factor is -1, 0 or 1.\<close>

fun realHeight :: "avlnode \<Rightarrow> int" where
  "realHeight AVLNull = 0"
| "realHeight (AVLNode x l r h i) = 1 + max (realHeight l) (realHeight r)"

fun avl_inv :: "avlnode \<Rightarrow> bool" where
  "avl_inv AVLNull = True"
| "avl_inv (AVLNode x l r h i) =
     (h = realHeight (AVLNode x l r h i) \<and>
      realHeight l - realHeight r \<in> {-1, 0, 1} \<and>
      avl_inv l \<and> avl_inv r)"

text \<open>Three relations used by the proofs. \<open>leans t v\<close>: the subtree on the side of
  \<open>v\<close> is the taller one, by one. \<open>grows t t' v\<close>: an insertion of \<open>v\<close> left the
  height as it was, or raised it by one, and then the result is a leaf or leans to
  \<open>v\<close>. \<open>shrinks t t'\<close>: a deletion left the height as it was or lowered it by
  one.\<close>

fun leans :: "avlnode \<Rightarrow> int \<Rightarrow> bool" where
  "leans AVLNull v = False"
| "leans (AVLNode x l r h i) v =
     ((v < x \<and> realHeight l = realHeight r + 1) \<or> (v > x \<and> realHeight r = realHeight l + 1))"

definition grows :: "avlnode \<Rightarrow> avlnode \<Rightarrow> int \<Rightarrow> bool" where
  "grows t t' v \<longleftrightarrow>
     realHeight t' = realHeight t \<or>
     (realHeight t' = realHeight t + 1 \<and> (realHeight t' = 1 \<or> leans t' v))"

definition shrinks :: "avlnode \<Rightarrow> avlnode \<Rightarrow> bool" where
  "shrinks t t' \<longleftrightarrow> realHeight t' = realHeight t \<or> realHeight t' = realHeight t - 1"

text \<open>In-order values, order invariant and node lookup, as for the plain search tree, and
  the cached heights of all nodes.\<close>

fun avl_inorder :: "avlnode \<Rightarrow> int list" where
  "avl_inorder AVLNull = []"
| "avl_inorder (AVLNode x l r h i) = avl_inorder l @ x # avl_inorder r"

fun avl_ordered :: "avlnode \<Rightarrow> bool" where
  "avl_ordered AVLNull = True"
| "avl_ordered (AVLNode x l r h i) =
     ((\<forall>y \<in> set (avl_inorder l). y < x) \<and> (\<forall>y \<in> set (avl_inorder r). x < y) \<and>
      avl_ordered l \<and> avl_ordered r)"

fun avl_holds :: "avlnode \<Rightarrow> int \<Rightarrow> int \<Rightarrow> bool" where
  "avl_holds AVLNull i v = False"
| "avl_holds (AVLNode x l r h j) i v = ((j = i \<and> x = v) \<or> avl_holds l i v \<or> avl_holds r i v)"

fun cachedHeights :: "avlnode \<Rightarrow> int list" where
  "cachedHeights AVLNull = []"
| "cachedHeights (AVLNode x l r h i) = h # cachedHeights l @ cachedHeights r"


text \<open>The states of a tree object that the public operations reach from the empty
  tree.\<close>

inductive avl_reachable :: "AVLTree \<Rightarrow> bool" where
  avl_init: "avl_reachable AVLTree_init"
| avl_insert: "avl_reachable t \<Longrightarrow> AVLTree_insert t v path = Some (t', c) \<Longrightarrow> avl_reachable t'"
| avl_remove: "avl_reachable t \<Longrightarrow> AVLTree_remove t v path = Some (t', c) \<Longrightarrow> avl_reachable t'"
| avl_search: "avl_reachable t \<Longrightarrow> AVLTree_search t v path = (t', found) \<Longrightarrow> avl_reachable t'"
| avl_contains: "avl_reachable t \<Longrightarrow> AVLTree_contains t v = (t', b) \<Longrightarrow> avl_reachable t'"
| avl_clear: "avl_reachable t \<Longrightarrow> avl_reachable (AVLTree_clear t)"

fun avlInsertAll :: "AVLTree \<Rightarrow> int list \<Rightarrow> AVLTree option" where
  "avlInsertAll t [] = Some t"
| "avlInsertAll t (v # vs) =
     (case AVLTree_insert t v [] of None \<Rightarrow> None | Some (t', c) \<Rightarrow> avlInsertAll t' vs)"

text \<open>Example trees, each written out as the sequence of insertions named in its
  \<open>_built\<close> lemma leaves it: \<open>avl_20_10_30\<close> after 30, 20, 10; \<open>avl_12\<close> after
  5, 2, 10, 1, 3, 7, 11, 4, 6, 8, 12, 9; \<open>avl_5\<close> after 30, 20, 40, 10, 25, with
  \<open>avl_5_with_22\<close> and \<open>avl_5_after\<close> the trees after inserting and then removing 22;
  \<open>avl_7\<close> after 50, 30, 70, 20, 40, 60, 80.\<close>

definition avl_20_10_30 :: AVLTree where
  "avl_20_10_30 =
     \<lparr>avlRoot = AVLNode 20 (AVLNode 10 AVLNull AVLNull 1 2) (AVLNode 30 AVLNull AVLNull 1 0) 2 1,
      avlNextNodeId = 3\<rparr>"






definition avl_7 :: AVLTree where
  "avl_7 =
     \<lparr>avlRoot =
        AVLNode 50
          (AVLNode 30 (AVLNode 20 AVLNull AVLNull 1 3) (AVLNode 40 AVLNull AVLNull 1 4) 2 1)
          (AVLNode 70 (AVLNode 60 AVLNull AVLNull 1 5) (AVLNode 80 AVLNull AVLNull 1 6) 2 2)
          3 0,
      avlNextNodeId = 7\<rparr>"

subsection \<open>Min-heap: order, contents, reachable states\<close>

text \<open>\<open>heap_ordered\<close> is the heap-order invariant: the value at the parent slot is at
  most the value at slot \<open>i\<close>, for every \<open>0 < i < size\<close>. \<open>heap_down h k\<close> and
  \<open>heap_up h k\<close> are the invariants of the two repair loops: heap order may fail only
  between slot \<open>k\<close> and its children (sift-down), or between slot \<open>k\<close> and its parent
  (sift-up), and the parent of \<open>k\<close> is at most the children of \<open>k\<close>.\<close>

definition heap_ordered :: "HeapNode list \<Rightarrow> bool" where
  "heap_ordered h \<longleftrightarrow> (\<forall>i \<in> {1..<length h}. hvalue (h ! parent i) \<le> hvalue (h ! i))"

definition heap_down :: "HeapNode list \<Rightarrow> nat \<Rightarrow> bool" where
  "heap_down h k \<longleftrightarrow>
     (\<forall>i. 0 < i \<and> i < length h \<and> parent i \<noteq> k \<longrightarrow> hvalue (h ! parent i) \<le> hvalue (h ! i)) \<and>
     (0 < k \<longrightarrow> (\<forall>c. c < length h \<and> parent c = k \<longrightarrow> hvalue (h ! parent k) \<le> hvalue (h ! c)))"

definition heap_up :: "HeapNode list \<Rightarrow> nat \<Rightarrow> bool" where
  "heap_up h k \<longleftrightarrow>
     (\<forall>i. 0 < i \<and> i < length h \<and> i \<noteq> k \<longrightarrow> hvalue (h ! parent i) \<le> hvalue (h ! i)) \<and>
     (0 < k \<longrightarrow> (\<forall>c. 0 < c \<and> c < length h \<and> parent c = k \<longrightarrow> hvalue (h ! parent k) \<le> hvalue (h ! c)))"

text \<open>The values stored in the array, as a multiset; the array after
  \<^verbatim>\<open>heap[k] = heap.back(); heap.pop_back()\<close>; and the states that the public operations
  reach from the empty heap.\<close>

definition hvalues :: "HeapNode list \<Rightarrow> int multiset" where
  "hvalues h = mset (map hvalue h)"

definition moveLast :: "HeapNode list \<Rightarrow> nat \<Rightarrow> HeapNode list" where
  "moveLast h k = butlast (h[k := last h])"

inductive heap_reachable :: "MinHeap \<Rightarrow> bool" where
  heap_init: "heap_reachable MinHeap_init"
| heap_insert: "heap_reachable mh \<Longrightarrow> MinHeap_insert mh v p = (mh', p') \<Longrightarrow> heap_reachable mh'"
| heap_extractMin:
    "heap_reachable mh \<Longrightarrow> MinHeap_extractMin mh p = (mh', cell, p') \<Longrightarrow> heap_reachable mh'"
| heap_remove:
    "heap_reachable mh \<Longrightarrow> MinHeap_remove mh v p = (mh', found, p') \<Longrightarrow> heap_reachable mh'"
| heap_search:
    "heap_reachable mh \<Longrightarrow> MinHeap_search mh v p = (mh', index, p') \<Longrightarrow> heap_reachable mh'"
| heap_clear: "heap_reachable mh \<Longrightarrow> heap_reachable (MinHeap_clear mh)"

section \<open>Properties\<close>

subsection \<open>Min-heap: bounds of getNode\<close>

lemma heap_5_3_8:
  "insertAll MinHeap_init [5, 3, 8] =
     \<lparr>heap = [\<lparr>hvalue = 3, hid = 1\<rparr>, \<lparr>hvalue = 5, hid = 0\<rparr>, \<lparr>hvalue = 8, hid = 2\<rparr>],
      heapNextNodeId = 3\<rparr>"
  by (simp add: MinHeap_init_def MinHeap_insert_def siftUp.simps parent_def swap_def)

text \<open>Claim C10. \<^verbatim>\<open>getNode(index)\<close> returns the cell stored at position \<open>index\<close> when
  \<open>0 \<le> index < size\<close> and the null pointer for every other index, negative or too
  large; the heap object is the same afterwards; and for no heap and no index does the
  call fault, that is, read the array outside \<open>0 \<le> index < size\<close>.\<close>

theorem MinHeap_getNode_bounds:
  "(0 \<le> index \<and> index < MinHeap_getSize mh
      \<longrightarrow> MinHeap_getNode mh index = Inr (mh, Some (heap mh ! nat index))) \<and>
   (index < 0 \<or> MinHeap_getSize mh \<le> index
      \<longrightarrow> MinHeap_getNode mh index = Inr (mh, None)) \<and>
   MinHeap_getNode mh index \<noteq> Inl OutOfBounds"
  by (auto simp: MinHeap_getNode_def MinHeap_getSize_def vectorAt_def)

theorem MinHeap_getNode_bounds_witness:
  "MinHeap_getSize (insertAll MinHeap_init [5, 3, 8]) = 3 \<and>
   MinHeap_getNode (insertAll MinHeap_init [5, 3, 8]) 1
     = Inr (insertAll MinHeap_init [5, 3, 8], Some \<lparr>hvalue = 5, hid = 0\<rparr>) \<and>
   MinHeap_getNode (insertAll MinHeap_init [5, 3, 8]) (- 1)
     = Inr (insertAll MinHeap_init [5, 3, 8], None) \<and>
   MinHeap_getNode (insertAll MinHeap_init [5, 3, 8]) 3
     = Inr (insertAll MinHeap_init [5, 3, 8], None) \<and>
   vectorAt (heap (insertAll MinHeap_init [5, 3, 8])) 3 = Inl OutOfBounds"
  using MinHeap_getNode_bounds [of 1 "insertAll MinHeap_init [5, 3, 8]"]
        MinHeap_getNode_bounds [of "- 1" "insertAll MinHeap_init [5, 3, 8]"]
        MinHeap_getNode_bounds [of 3 "insertAll MinHeap_init [5, 3, 8]"]
  unfolding heap_5_3_8 by (simp add: MinHeap_getSize_def vectorAt_def)

subsection \<open>Min-heap: the trace of insert\<close>

lemma siftUp_trace:
  "c < length h \<Longrightarrow> siftUp h c p = (h', c', p') \<Longrightarrow>
     \<exists>tr. p' = p @ tr \<and> climbs (c # tr) \<and> last (c # tr) = c' \<and>
          (c' = 0 \<or> hvalue (h' ! parent c') \<le> hvalue (h' ! c')) \<and>
          hvalue (h' ! c') = hvalue (h ! c) \<and> length h' = length h"
proof (induction h c p arbitrary: h' c' p' rule: siftUp.induct)
  case (1 h current siftPath)
  show ?case
  proof (cases "current > 0 \<and> hvalue (h ! parent current) > hvalue (h ! current)")
    case True
    let ?q = "parent current"
    have q: "?q < current" using True by (auto simp: parent_def)
    from True "1.prems" have rec: "siftUp (swap h current ?q) ?q (siftPath @ [?q]) = (h', c', p')"
      by (simp add: siftUp.simps [of h current])
    have "?q < length (swap h current ?q)" using q "1.prems"(1) by simp
    from "1.IH" [OF True this rec]
    obtain tr where tr: "p' = (siftPath @ [?q]) @ tr" "climbs (?q # tr)" "last (?q # tr) = c'"
      "c' = 0 \<or> hvalue (h' ! parent c') \<le> hvalue (h' ! c')"
      "hvalue (h' ! c') = hvalue (swap h current ?q ! ?q)" "length h' = length (swap h current ?q)"
      by blast
    have "hvalue (swap h current ?q ! ?q) = hvalue (h ! current)"
      using q "1.prems"(1) by (simp add: swap_def)
    with tr True show ?thesis
      by (intro exI [of _ "?q # tr"]) simp
  next
    case False
    with "1.prems" have "h' = h" "c' = current" "p' = siftPath"
      by (auto simp: siftUp.simps [of h current])
    with False show ?thesis by auto
  qed
qed

text \<open>Claim C7. The part of the trace that \<^verbatim>\<open>insert(v)\<close> appends to the caller's path
  begins with the index at which the cell was appended (the old size); every later entry
  is the parent slot of the entry before it, the destination of one sift-up swap; the
  cell holding \<open>v\<close> ends at the last entry, which is index 0 or an index whose parent's
  value is at most \<open>v\<close>.\<close>

theorem MinHeap_insert_trace:
  "let (mh', siftPath') = MinHeap_insert mh v siftPath;
       tr = drop (length siftPath) siftPath'
   in take (length siftPath) siftPath' = siftPath \<and>
      tr \<noteq> [] \<and> hd tr = length (heap mh) \<and> climbs tr \<and>
      hvalue (heap mh' ! last tr) = v \<and>
      (last tr = 0 \<or> hvalue (heap mh' ! parent (last tr)) \<le> v)"
proof -
  let ?h = "heap mh @ [\<lparr>hvalue = v, hid = heapNextNodeId mh\<rparr>]"
  let ?n = "length (heap mh)"
  obtain h' c' p' where s: "siftUp ?h ?n (siftPath @ [?n]) = (h', c', p')"
    by (metis prod_cases3)
  from siftUp_trace [OF _ s]
  obtain tr where tr: "p' = (siftPath @ [?n]) @ tr" "climbs (?n # tr)" "last (?n # tr) = c'"
      "c' = 0 \<or> hvalue (h' ! parent c') \<le> hvalue (h' ! c')"
      "hvalue (h' ! c') = hvalue (?h ! ?n)"
    by auto
  show ?thesis
    using s tr by (simp add: MinHeap_insert_def Let_def)
qed

subsection \<open>Linked list: remove\<close>

lemma llist_Cons:
  "llist m p (a # as) \<longleftrightarrow> p = Some a \<and> (\<exists>n. m a = Some n \<and> llist m (lnext n) as)"
  by (auto split: option.splits)

lemma llist_upd_notin:
  "a \<notin> set as \<Longrightarrow> llist (m(a := x)) p as = llist m p as"
  by (induction as arbitrary: p) (auto split: option.splits)

lemma llist_node:
  "llist m p (xs @ a # ys) \<Longrightarrow> \<exists>n. m a = Some n \<and> llist m (lnext n) ys"
  by (induction xs arbitrary: p) (auto split: option.splits)

lemma llist_unlink_head:
  assumes "llist m p (b # a # ys)" "distinct (b # a # ys)" "m b = Some bn" "m a = Some an"
  shows "llist (m(b \<mapsto> bn\<lparr>lnext := lnext an\<rparr>)) p (b # ys)"
proof -
  from assms have "llist m (lnext an) ys" "b \<notin> set ys" "p = Some b"
    by (auto split: option.splits)
  then show ?thesis
    using assms(3) by (simp add: llist_upd_notin)
qed

lemma llist_unlink:
  "llist m p (xs @ b # a # ys) \<Longrightarrow> distinct (xs @ b # a # ys) \<Longrightarrow>
   m b = Some bn \<Longrightarrow> m a = Some an \<Longrightarrow>
   llist (m(b \<mapsto> bn\<lparr>lnext := lnext an\<rparr>)) p (xs @ b # ys)"
proof (induction xs arbitrary: p)
  case Nil
  have "llist m p (b # a # ys)" "distinct (b # a # ys)"
    using Nil.prems(1,2) by simp_all
  from llist_unlink_head [OF this Nil.prems(3,4)] show ?case
    by (simp del: fun_upd_apply)
next
  case (Cons x xs)
  then obtain xn where xn: "p = Some x" "m x = Some xn" "llist m (lnext xn) (xs @ b # a # ys)" "x \<noteq> b"
    by (auto split: option.splits)
  from Cons.IH [OF xn(3) _ Cons.prems(3,4)] Cons.prems(2) xn show ?case
    by simp
qed

lemma removeLoop_found:
  "llist (mem ll) (Some prev) (prev # pre @ a # post) \<Longrightarrow>
   distinct (prev # pre @ a # post) \<Longrightarrow>
   mem ll prev = Some pn \<Longrightarrow> lvalue pn \<noteq> v \<Longrightarrow>
   v \<notin> set (lvalues (mem ll) pre) \<Longrightarrow> mem ll a = Some an \<Longrightarrow> lvalue an = v \<Longrightarrow>
   removeLoop ll prev (lnext pn) v path =
     Some (ll\<lparr>mem := (mem ll)(last (prev # pre) \<mapsto>
                      (the (mem ll (last (prev # pre))))\<lparr>lnext := lnext an\<rparr>),
              tail := (if Some a = tail ll then Some (last (prev # pre)) else tail ll),
              listSize := listSize ll - 1\<rparr>,
           True, path @ pre @ [a], Some a)"
proof (induction pre arbitrary: prev pn path)
  case Nil
  then have "lnext pn = Some a" by (auto split: option.splits)
  with Nil show ?case
    by (simp add: removeLoop.simps [of ll prev] del: fun_upd_apply)
next
  case (Cons b pre)
  from Cons.prems obtain bn where bn: "lnext pn = Some b" "mem ll b = Some bn"
      "llist (mem ll) (lnext bn) (pre @ a # post)"
    by (auto split: option.splits)
  from Cons.prems bn have bv: "lvalue bn \<noteq> v" by (simp add: lvalues_def)
  have l: "llist (mem ll) (Some b) (b # pre @ a # post)" using bn by simp
  have d: "distinct (b # pre @ a # post)" using Cons.prems by simp
  have nv: "v \<notin> set (lvalues (mem ll) pre)" using Cons.prems by (simp add: lvalues_def)
  from Cons.IH [OF l d bn(2) bv nv Cons.prems(6,7), of "path @ [b]"] bn bv
  show ?case
    by (simp add: removeLoop.simps [of ll prev] del: fun_upd_apply)
qed

lemma lvalues_upd_next:
  "m b = Some bn \<Longrightarrow> lvalues (m(b \<mapsto> bn\<lparr>lnext := x\<rparr>)) as = lvalues m as"
  by (induction as) (auto simp: lvalues_def)

text \<open>Claim C8. On a well-formed list whose first node with value \<open>v\<close> is \<open>a\<close>,
  after the nodes \<open>pre\<close> and before the nodes \<open>post\<close>, \<^verbatim>\<open>remove(v)\<close> returns true,
  hands out \<open>a\<close> as \<^verbatim>\<open>deletedNode\<close> with its fields intact, appends the nodes visited
  from the head up to \<open>a\<close> to the trace, and leaves the well-formed list of the other
  nodes in their order and with their values: head and tail are its first and last node
  (both null when it is empty) and the size is one less. The witness is the scenario on
  \<open>10 \<rightarrow> 20 \<rightarrow> 30\<close>: \<^verbatim>\<open>remove(10)\<close> returns the old head, the new head holds 20, the
  size is 2 and the trace is the node of 10 alone.\<close>

theorem LinkedList_remove_first_match:
  assumes wf: "list_wf ll (pre @ a # post)"
    and pre: "v \<notin> set (lvalues (mem ll) pre)"
    and a: "lvalues (mem ll) [a] = [v]"
  shows "\<exists>ll'. LinkedList_remove ll v path = Some (ll', True, path @ pre @ [a], Some a) \<and>
           list_wf ll' (pre @ post) \<and>
           listSize ll' = listSize ll - 1 \<and>
           head ll' = (if pre @ post = [] then None else Some (hd (pre @ post))) \<and>
           tail ll' = (if pre @ post = [] then None else Some (last (pre @ post))) \<and>
           mem ll' a = mem ll a \<and>
           lvalues (mem ll') (pre @ post) = lvalues (mem ll) (pre @ post)"
proof -
  from wf have l: "llist (mem ll) (head ll) (pre @ a # post)"
    and d: "distinct (pre @ a # post)"
    and t: "tail ll = Some (last (a # post))"
    and s: "listSize ll = int (length (pre @ a # post))"
    by (simp_all add: list_wf_def)
  from llist_node [OF l] obtain an where an: "mem ll a = Some an" "llist (mem ll) (lnext an) post"
    by blast
  from a an have av: "lvalue an = v" by (simp add: lvalues_def)
  show ?thesis
  proof (cases pre)
    case Nil
    with l an have h: "head ll = Some a"
      by (auto split: option.splits)
    have hd: "lnext an = (if post = [] then None else Some (hd post))"
      using an(2) by (cases post) auto
    show ?thesis
      using Nil an av d t s hd h
      by (auto simp: LinkedList_remove_def list_wf_def Let_def)
  next
    case (Cons h pre')
    with l obtain hn where hn: "head ll = Some h" "mem ll h = Some hn"
        "llist (mem ll) (lnext hn) (pre' @ a # post)"
      by (auto split: option.splits)
    from pre Cons hn have hv: "lvalue hn \<noteq> v" by (simp add: lvalues_def)
    from pre Cons have nv: "v \<notin> set (lvalues (mem ll) pre')" by (simp add: lvalues_def)
    have l': "llist (mem ll) (Some h) (h # pre' @ a # post)" using hn by simp
    have d': "distinct (h # pre' @ a # post)" using d Cons by simp
    let ?p = "last (h # pre')"
    have pre_eq: "pre = butlast pre @ [?p]" using Cons
      by (metis append_butlast_last_id list.distinct(1))
    have l2: "llist (mem ll) (head ll) (butlast pre @ ?p # a # post)"
      using l pre_eq by (metis append.assoc append_Cons append_Nil)
    have d2: "distinct (butlast pre @ ?p # a # post)"
      using d pre_eq by (metis append.assoc append_Cons append_Nil)
    from llist_node [OF l2] obtain pn where pn: "mem ll ?p = Some pn" by blast
    let ?m' = "(mem ll)(?p \<mapsto> pn\<lparr>lnext := lnext an\<rparr>)"
    let ?ll' = "ll\<lparr>mem := ?m', tail := (if Some a = tail ll then Some ?p else tail ll),
                  listSize := listSize ll - 1\<rparr>"
    have r: "LinkedList_remove ll v path = Some (?ll', True, path @ pre @ [a], Some a)"
      using removeLoop_found [OF l' d' hn(2) hv nv an(1) av, of "path @ [h]"] hn hv Cons pn
      by (simp add: LinkedList_remove_def del: fun_upd_apply)
    have l3: "llist ?m' (head ll) (pre @ post)"
      using llist_unlink [OF l2 d2 pn an(1)] pre_eq by (metis append.assoc append_Cons append_Nil)
    have pa: "?p \<noteq> a" using d2 by auto
    have tl: "(if Some a = tail ll then Some ?p else tail ll) = Some (last (pre @ post))"
    proof (cases "post = []")
      case True
      with t Cons show ?thesis by simp
    next
      case False
      with d have "last post \<noteq> a" by auto
      with False t show ?thesis by simp
    qed
    have wf': "list_wf ?ll' (pre @ post)"
      using l3 d tl s Cons by (simp add: list_wf_def del: fun_upd_apply)
    have "mem ?ll' a = mem ll a" using pa by simp
    moreover have "lvalues (mem ?ll') (pre @ post) = lvalues (mem ll) (pre @ post)"
      using lvalues_upd_next [where m = "mem ll" and b = ?p, OF pn] by simp
    moreover have "head ?ll' = Some (hd (pre @ post))" using hn Cons by simp
    moreover have "tail ?ll' = Some (last (pre @ post))" using tl by simp
    ultimately show ?thesis using r wf' Cons 
      by (intro exI [of _ ?ll']) (simp del: fun_upd_apply)
  qed
qed

lemma list_10_20_30_built: "listInsertAll LinkedList_init [10, 20, 30] = Some list_10_20_30"
  by (simp add: LinkedList_init_def LinkedList_insertAtTail_def traverseLoop.simps
        list_10_20_30_def fun_eq_iff)

lemma list_10_20_30_wf: "list_wf list_10_20_30 [0, 1, 2]"
  by (simp add: list_wf_def list_10_20_30_def)

theorem LinkedList_remove_first_match_witness:
  "list_wf list_10_20_30 ([] @ 0 # [1, 2]) \<and>
   10 \<notin> set (lvalues (mem list_10_20_30) []) \<and>
   lvalues (mem list_10_20_30) [0] = [10] \<and>
   LinkedList_remove list_10_20_30 10 []
     = Some (list_10_20_30\<lparr>head := Some 1, listSize := 2\<rparr>, True, [0], Some 0) \<and>
   head list_10_20_30 = Some 0 \<and>
   lvalues (mem list_10_20_30) [1] = [20]"
  using LinkedList_remove_first_match [of list_10_20_30 "[]" 0 "[1, 2]" 10 "[]"]
        list_10_20_30_wf
  by (simp add: lvalues_def LinkedList_remove_def) (simp add: list_10_20_30_def)

subsection \<open>Searching changes nothing\<close>

lemma listSearchLoop_llist:
  "llist m p as \<Longrightarrow> \<exists>found path'. listSearchLoop m p v path = Some (found, path')"
proof (induction as arbitrary: p path)
  case Nil
  then show ?case by (simp add: listSearchLoop.simps)
next
  case (Cons a as)
  then obtain n where n: "p = Some a" "m a = Some n" "llist m (lnext n) as"
    by (auto split: option.splits)
  show ?case
  proof (cases "lvalue n = v")
    case True
    with n show ?thesis by (simp add: listSearchLoop.simps [of m "Some a"])
  next
    case False
    with n Cons.IH [OF n(3), of "path @ [a]"] show ?thesis
      by (simp add: listSearchLoop.simps [of m "Some a"])
  qed
qed

lemma LinkedList_search_frame:
  assumes "list_wf ll as"
  shows "\<exists>found path'. LinkedList_search ll v path = Some (ll, found, path')"
    and "\<exists>b. LinkedList_contains ll v = Some (ll, b)"
proof -
  from assms have l: "llist (mem ll) (head ll) as" by (simp add: list_wf_def)
  from listSearchLoop_llist [OF l, of v path]
  show "\<exists>found path'. LinkedList_search ll v path = Some (ll, found, path')"
    by (auto simp: LinkedList_search_def)
  from listSearchLoop_llist [OF l, of v "[]"]
  show "\<exists>b. LinkedList_contains ll v = Some (ll, b)"
    by (auto simp: LinkedList_contains_def LinkedList_search_def)
qed

text \<open>Claim C9. \<^verbatim>\<open>search\<close> and \<^verbatim>\<open>contains\<close> return the container object they
  were called on, equal in every field (structure, values, size, head, tail, root, cached
  heights, identifier counter), whether or not the value is found. The heap has no
  \<^verbatim>\<open>contains\<close>. On a well-formed linked list both calls return.\<close>

theorem search_frame:
  "fst (BST_search bt v bp) = bt \<and> fst (BST_contains bt v) = bt \<and>
   fst (AVLTree_search at v ap) = at \<and> fst (AVLTree_contains at v) = at \<and>
   fst (MinHeap_search mh v hp) = mh \<and>
   fst (Stack_search st v sp) = st \<and> fst (Stack_contains st v) = st \<and>
   fst (Queue_search q v qp) = q \<and> fst (Queue_contains q v) = q \<and>
   (list_wf ll as \<longrightarrow>
      (\<exists>found path'. LinkedList_search ll v lp = Some (ll, found, path')) \<and>
      (\<exists>b. LinkedList_contains ll v = Some (ll, b)))"
  using LinkedList_search_frame(1) [of ll as v lp] LinkedList_search_frame(2) [of ll as v]
  by (simp add: BST_search_def BST_contains_def AVLTree_search_def AVLTree_contains_def
        MinHeap_search_def Stack_search_def Stack_contains_def Queue_search_def
        Queue_contains_def split: prod.splits)

theorem search_frame_witness:
  "list_wf list_10_20_30 [0, 1, 2] \<and>
   LinkedList_search list_10_20_30 20 [] = Some (list_10_20_30, Some 1, [0, 1]) \<and>
   LinkedList_contains list_10_20_30 20 = Some (list_10_20_30, True)"
  using search_frame [where ll = list_10_20_30 and as = "[0, 1, 2]" and v = 20 and lp = "[]"]
        list_10_20_30_wf
  by (simp add: LinkedList_search_def LinkedList_contains_def listSearchLoop.simps
        list_10_20_30_def)

subsection \<open>Min-heap: heap order and heap sort\<close>

lemma heap_ordered_iff:
  "heap_ordered h \<longleftrightarrow> (\<forall>i. 0 < i \<and> i < length h \<longrightarrow> hvalue (h ! parent i) \<le> hvalue (h ! i))"
  by (auto simp: heap_ordered_def)

lemma parent_less: "0 < i \<Longrightarrow> parent i < i"
  by (auto simp: parent_def)

lemma parent_child_iff: "0 < i \<Longrightarrow> parent i = k \<longleftrightarrow> i = leftChild k \<or> i = rightChild k"
  by (auto simp: parent_def leftChild_def rightChild_def)

lemma parent_leftChild [simp]: "parent (leftChild k) = k"
  by (simp add: parent_def leftChild_def)

lemma parent_rightChild [simp]: "parent (rightChild k) = k"
  by (simp add: parent_def rightChild_def)

lemma child_greater: "k < leftChild k" "k < rightChild k" "0 < leftChild k" "0 < rightChild k"
  by (simp_all add: leftChild_def rightChild_def)

lemma swap_nth:
  "a < length h \<Longrightarrow> b < length h \<Longrightarrow>
   swap h a b ! i = (if i = b then h ! a else if i = a then h ! b else h ! i)"
  by (auto simp: swap_def nth_list_update)

lemma smallestOf_le:
  shows "hvalue (h ! smallestOf h k) \<le> hvalue (h ! k)"
    and "leftChild k < length h \<Longrightarrow> hvalue (h ! smallestOf h k) \<le> hvalue (h ! leftChild k)"
    and "rightChild k < length h \<Longrightarrow> hvalue (h ! smallestOf h k) \<le> hvalue (h ! rightChild k)"
    and "smallestOf h k \<noteq> k \<Longrightarrow> hvalue (h ! smallestOf h k) < hvalue (h ! k)"
    and "smallestOf h k \<noteq> k \<Longrightarrow>
           smallestOf h k < length h \<and> parent (smallestOf h k) = k \<and> 0 < smallestOf h k"
  using child_greater [of k]
  by (auto simp: smallestOf_def Let_def split: if_splits)

lemma siftDown_stop: "smallestOf h k = k \<Longrightarrow> siftDown h k p = (h, k, p)"
  by (simp add: siftDown.simps)

lemma siftDown_step:
  "smallestOf h k \<noteq> k \<Longrightarrow>
   siftDown h k p = siftDown (swap h k (smallestOf h k)) (smallestOf h k) (p @ [smallestOf h k])"
  by (subst siftDown.simps) simp

lemma heap_down_stop:
  assumes "heap_down h k" "smallestOf h k = k"
  shows "heap_ordered h"
  unfolding heap_ordered_iff
proof (intro allI impI)
  fix i assume i: "0 < i \<and> i < length h"
  show "hvalue (h ! parent i) \<le> hvalue (h ! i)"
  proof (cases "parent i = k")
    case False
    with assms(1) i show ?thesis by (simp add: heap_down_def)
  next
    case True
    with i have "i = leftChild k \<or> i = rightChild k" by (simp add: parent_child_iff)
    with smallestOf_le(2,3) [where h = h and k = k] assms(2) i True show ?thesis by auto
  qed
qed

lemma heap_down_step:
  assumes d: "heap_down h k" and k: "k < length h" and s: "smallestOf h k \<noteq> k"
  shows "heap_down (swap h k (smallestOf h k)) (smallestOf h k)"
proof -
  let ?s = "smallestOf h k"
  let ?h = "swap h k ?s"
  from smallestOf_le(5) [OF s] have sl: "?s < length h" "parent ?s = k" "0 < ?s" by auto
  have ks: "k < ?s" using sl parent_less [of ?s] by simp
  note nth = swap_nth [OF k sl(1)]
  have lt: "hvalue (h ! ?s) < hvalue (h ! k)" using smallestOf_le(4) [OF s] .
  have A: "hvalue (?h ! parent i) \<le> hvalue (?h ! i)"
    if i: "0 < i" "i < length ?h" "parent i \<noteq> ?s" for i
  proof -
    consider (is_s) "i = ?s" | (sib) "i \<noteq> ?s" "parent i = k" | (is_k) "i = k"
      | (other) "i \<noteq> ?s" "i \<noteq> k" "parent i \<noteq> k"
      by blast
    then show ?thesis
    proof cases
      case is_s
      with sl ks lt show ?thesis by (simp add: nth)
    next
      case sib
      with i have c: "i = leftChild k \<or> i = rightChild k" by (simp add: parent_child_iff)
      have "i \<noteq> k" using sib(2) parent_less [OF i(1)] by auto
      moreover have "hvalue (h ! ?s) \<le> hvalue (h ! i)"
        using c smallestOf_le(2,3) [where h = h and k = k] i(2) by auto
      ultimately show ?thesis using sib ks by (simp add: nth)
    next
      case is_k
      then have k0: "0 < k" using i by simp
      have pk: "parent k \<noteq> k" "parent k \<noteq> ?s" using parent_less [OF k0] ks by auto
      from d k0 sl have "hvalue (h ! parent k) \<le> hvalue (h ! ?s)"
        by (simp add: heap_down_def)
      with is_k pk ks show ?thesis by (simp add: nth)
    next
      case other
      with d i have "hvalue (h ! parent i) \<le> hvalue (h ! i)" by (simp add: heap_down_def)
      with other i(3) show ?thesis by (simp add: nth)
    qed
  qed
  have B: "hvalue (?h ! parent ?s) \<le> hvalue (?h ! c)" if c: "c < length ?h" "parent c = ?s" for c
  proof -
    have c0: "0 < c" using c(2) sl(3) by (cases c) (auto simp: parent_def)
    have "c \<noteq> k" "c \<noteq> ?s" using c(2) parent_less [OF c0] ks by auto
    moreover have "hvalue (h ! parent c) \<le> hvalue (h ! c)"
      using d c c0 s unfolding heap_down_def by auto
    then have "hvalue (h ! ?s) \<le> hvalue (h ! c)" using c(2) by simp
    ultimately show ?thesis using sl ks by (simp add: nth)
  qed
  show ?thesis unfolding heap_down_def using A B by blast
qed

lemma siftDown_ordered:
  "heap_down h k \<Longrightarrow> k < length h \<Longrightarrow> heap_ordered (fst (siftDown h k p))"
proof (induction h k p rule: siftDown.induct)
  case (1 h current siftPath)
  show ?case
  proof (cases "smallestOf h current = current")
    case True
    with heap_down_stop [OF "1.prems"(1) True] show ?thesis
      by (simp add: siftDown_stop)
  next
    case False
    from smallestOf_le(5) [OF False] have "smallestOf h current < length h" by simp
    with "1.IH" [OF False heap_down_step [OF "1.prems" False]] False show ?thesis
      by (simp add: siftDown_step)
  qed
qed

lemma siftUp_stop:
  assumes "\<not> (0 < k \<and> hvalue (h ! parent k) > hvalue (h ! k))"
  shows "siftUp h k p = (h, k, p)"
  by (subst siftUp.simps) (simp only: assms if_False)

lemma siftUp_step:
  "0 < k \<Longrightarrow> hvalue (h ! parent k) > hvalue (h ! k) \<Longrightarrow>
   siftUp h k p = siftUp (swap h k (parent k)) (parent k) (p @ [parent k])"
  by (subst siftUp.simps) simp

lemma heap_up_stop:
  assumes "heap_up h k" "\<not> (0 < k \<and> hvalue (h ! parent k) > hvalue (h ! k))"
  shows "heap_ordered h"
  unfolding heap_ordered_iff
proof (intro allI impI)
  fix i assume i: "0 < i \<and> i < length h"
  show "hvalue (h ! parent i) \<le> hvalue (h ! i)"
  proof (cases "i = k")
    case False
    with assms(1) i show ?thesis by (simp add: heap_up_def)
  next
    case True
    with assms(2) i show ?thesis by auto
  qed
qed

lemma heap_up_step:
  assumes u: "heap_up h k" and k: "k < length h" and k0: "0 < k"
    and gt: "hvalue (h ! parent k) > hvalue (h ! k)"
  shows "heap_up (swap h k (parent k)) (parent k)"
proof -
  let ?q = "parent k"
  let ?h = "swap h k ?q"
  have qk: "?q < k" using parent_less [OF k0] .
  then have ql: "?q < length h" using k by simp
  note nth = swap_nth [OF k ql]
  have old: "hvalue (h ! parent i) \<le> hvalue (h ! i)" if "0 < i" "i < length h" "i \<noteq> k" for i
    using u that unfolding heap_up_def by auto
  have gp: "hvalue (h ! ?q) \<le> hvalue (h ! c)" if "0 < c" "c < length h" "parent c = k" for c
    using u that k0 unfolding heap_up_def by auto
  have A: "hvalue (?h ! parent i) \<le> hvalue (?h ! i)"
    if i: "0 < i" "i < length ?h" "i \<noteq> ?q" for i
  proof -
    consider (is_k) "i = k" | (sib) "i \<noteq> k" "parent i = ?q" | (child) "parent i = k"
      | (other) "i \<noteq> k" "parent i \<noteq> ?q" "parent i \<noteq> k"
      by blast
    then show ?thesis
    proof cases
      case is_k
      with qk gt show ?thesis by (simp add: nth)
    next
      case sib
      have "hvalue (h ! ?q) \<le> hvalue (h ! i)" using old [of i] i sib by simp
      with sib i gt qk show ?thesis by (simp add: nth)
    next
      case child
      have ik: "k < i" using child parent_less [OF i(1)] by simp
      have "hvalue (h ! ?q) \<le> hvalue (h ! i)" using gp [of i] i child by simp
      with child ik qk show ?thesis by (simp add: nth)
    next
      case other
      have "hvalue (h ! parent i) \<le> hvalue (h ! i)" using old [of i] i other by simp
      with other i show ?thesis by (simp add: nth)
    qed
  qed
  have B: "hvalue (?h ! parent ?q) \<le> hvalue (?h ! c)"
    if c: "0 < ?q" "0 < c" "c < length ?h" "parent c = ?q" for c
  proof -
    have pq: "parent ?q < ?q" using parent_less [OF c(1)] .
    have t: "hvalue (h ! parent ?q) \<le> hvalue (h ! ?q)"
      using old [of ?q] c(1) ql qk by simp
    have cq: "c \<noteq> ?q" using c(4) parent_less [OF c(2)] by auto
    show ?thesis
    proof (cases "c = k")
      case True
      with t pq qk show ?thesis by (simp add: nth)
    next
      case False
      have "hvalue (h ! ?q) \<le> hvalue (h ! c)" using old [of c] c False by simp
      with t False cq pq qk show ?thesis by (simp add: nth)
    qed
  qed
  show ?thesis unfolding heap_up_def using A B by blast
qed

lemma siftUp_ordered:
  "heap_up h k \<Longrightarrow> k < length h \<Longrightarrow> heap_ordered (fst (siftUp h k p))"
proof (induction h k p rule: siftUp.induct)
  case (1 h current siftPath)
  show ?case
  proof (cases "0 < current \<and> hvalue (h ! parent current) > hvalue (h ! current)")
    case False
    with heap_up_stop [OF "1.prems"(1) False] show ?thesis
      by (simp add: siftUp_stop)
  next
    case True
    then have c: "0 < current" "hvalue (h ! parent current) > hvalue (h ! current)" by auto
    have "parent current < length (swap h current (parent current))"
      using parent_less [OF c(1)] "1.prems"(2) by simp
    with "1.IH" [OF True heap_up_step [OF "1.prems" c]] c show ?thesis
      by (simp add: siftUp_step)
  qed
qed

lemma siftUp_ordered_id:
  assumes "heap_ordered h" "k < length h"
  shows "siftUp h k p = (h, k, p)"
proof (rule siftUp_stop)
  have "hvalue (h ! parent k) \<le> hvalue (h ! k)" if "0 < k"
    using assms that unfolding heap_ordered_iff by blast
  then show "\<not> (0 < k \<and> hvalue (h ! k) < hvalue (h ! parent k))"
    by auto
qed

lemma siftDown_current:
  "k < length h \<Longrightarrow> fst (snd (siftDown h k p)) < length (fst (siftDown h k p))"
proof (induction h k p rule: siftDown.induct)
  case (1 h current siftPath)
  show ?case
  proof (cases "smallestOf h current = current")
    case True
    with "1.prems" show ?thesis by (simp add: siftDown_stop)
  next
    case False
    from smallestOf_le(5) [OF False] have "smallestOf h current < length h" by simp
    with "1.IH" [OF False] False show ?thesis
      by (simp add: siftDown_step)
  qed
qed

lemma hvalues_swap: "a < length h \<Longrightarrow> b < length h \<Longrightarrow> hvalues (swap h a b) = hvalues h"
proof -
  assume a: "a < length h" and b: "b < length h"
  have "mset (swap h a b) = mset h"
    unfolding swap_def using mset_swap [OF b a] by simp
  then show ?thesis
    by (simp add: hvalues_def)
qed

lemma siftUp_hvalues: "k < length h \<Longrightarrow> hvalues (fst (siftUp h k p)) = hvalues h"
proof (induction h k p rule: siftUp.induct)
  case (1 h current siftPath)
  show ?case
  proof (cases "0 < current \<and> hvalue (h ! parent current) > hvalue (h ! current)")
    case False
    then show ?thesis by (simp add: siftUp_stop)
  next
    case True
    then have c: "0 < current" "hvalue (h ! parent current) > hvalue (h ! current)" by auto
    have q: "parent current < length h"
      using parent_less [OF c(1)] "1.prems" by simp
    with "1.IH" [OF True] c "1.prems" show ?thesis
      by (simp add: siftUp_step hvalues_swap)
  qed
qed

lemma siftDown_hvalues: "k < length h \<Longrightarrow> hvalues (fst (siftDown h k p)) = hvalues h"
proof (induction h k p rule: siftDown.induct)
  case (1 h current siftPath)
  show ?case
  proof (cases "smallestOf h current = current")
    case True
    then show ?thesis by (simp add: siftDown_stop)
  next
    case False
    from smallestOf_le(5) [OF False] have "smallestOf h current < length h" by simp
    with "1.IH" [OF False] False "1.prems" show ?thesis
      by (simp add: siftDown_step hvalues_swap)
  qed
qed

lemma heap_up_append:
  assumes "heap_ordered h"
  shows "heap_up (h @ [x]) (length h)"
  unfolding heap_up_def
proof (intro conjI allI impI)
  fix i assume i: "0 < i \<and> i < length (h @ [x]) \<and> i \<noteq> length h"
  then have il: "i < length h" by simp
  with i have "parent i < length h" using parent_less [of i] by simp
  with assms i il show "hvalue ((h @ [x]) ! parent i) \<le> hvalue ((h @ [x]) ! i)"
    by (simp add: heap_ordered_iff nth_append)
next
  fix c assume "0 < length h" and c: "0 < c \<and> c < length (h @ [x]) \<and> parent c = length h"
  then have "length h < c" using parent_less [of c] by simp
  with c have False by simp
  then show "hvalue ((h @ [x]) ! parent (length h)) \<le> hvalue ((h @ [x]) ! c)" ..
qed

lemma MinHeap_insert_heap:
  "heap (fst (MinHeap_insert mh v p))
     = fst (siftUp (heap mh @ [\<lparr>hvalue = v, hid = heapNextNodeId mh\<rparr>]) (length (heap mh))
                   (p @ [length (heap mh)]))"
  by (simp add: MinHeap_insert_def Let_def case_prod_beta)

lemma MinHeap_insert_ordered:
  "heap_ordered (heap mh) \<Longrightarrow> heap_ordered (heap (fst (MinHeap_insert mh v p)))"
  unfolding MinHeap_insert_heap
  by (rule siftUp_ordered [OF heap_up_append]) simp_all

lemma MinHeap_insert_hvalues:
  "hvalues (heap (fst (MinHeap_insert mh v p))) = add_mset v (hvalues (heap mh))"
  unfolding MinHeap_insert_heap
  by (simp add: siftUp_hvalues) (simp add: hvalues_def)

lemma length_moveLast [simp]: "length (moveLast h k) = length h - 1"
  by (simp add: moveLast_def)

lemma moveLast_nth:
  "i < length h - 1 \<Longrightarrow> moveLast h k ! i = (if i = k then last h else h ! i)"
  by (simp add: moveLast_def nth_butlast nth_list_update)

lemma last_nth: "h \<noteq> [] \<Longrightarrow> last h = h ! (length h - 1)"
  by (simp add: last_conv_nth)

lemma heap_root_min:
  assumes "heap_ordered h"
  shows "i < length h \<Longrightarrow> hvalue (h ! 0) \<le> hvalue (h ! i)"
proof (induction i rule: less_induct)
  case (less i)
  show ?case
  proof (cases "i = 0")
    case True
    then show ?thesis by simp
  next
    case False
    then have i0: "0 < i" by simp
    from parent_less [OF i0] less.prems have "parent i < length h" by simp
    from less.IH [OF parent_less [OF i0] this]
    have "hvalue (h ! 0) \<le> hvalue (h ! parent i)" .
    moreover from assms i0 less.prems have "hvalue (h ! parent i) \<le> hvalue (h ! i)"
      by (simp add: heap_ordered_iff)
    ultimately show ?thesis by simp
  qed
qed

lemma heap_ancestor_le:
  assumes "heap_ordered h" "0 < i" "i < length h"
  shows "hvalue (h ! parent i) \<le> hvalue (h ! i)"
  using assms by (simp add: heap_ordered_iff)

lemma heap_down_moveLast:
  assumes o: "heap_ordered h" and k: "k < length h - 1"
    and up: "0 < k \<Longrightarrow> hvalue (h ! parent k) \<le> hvalue (last h)"
  shows "heap_down (moveLast h k) k"
  unfolding heap_down_def
proof (intro conjI allI impI)
  fix i assume i: "0 < i \<and> i < length (moveLast h k) \<and> parent i \<noteq> k"
  then have il: "i < length h - 1" by simp
  then have pl: "parent i < length h - 1" using parent_less [of i] i by simp
  have il': "i < length h" using il by simp
  have old: "hvalue (h ! parent i) \<le> hvalue (h ! i)"
    using heap_ancestor_le [OF o _ il'] i by simp
  show "hvalue (moveLast h k ! parent i) \<le> hvalue (moveLast h k ! i)"
  proof (cases "i = k")
    case True
    with up i old il pl show ?thesis by (simp add: moveLast_nth)
  next
    case False
    with i old il pl show ?thesis by (simp add: moveLast_nth)
  qed
next
  fix c assume k0: "0 < k" and c: "c < length (moveLast h k) \<and> parent c = k"
  then have cl: "c < length h - 1" by simp
  have c0: "0 < c" using c k0 by (cases c) (auto simp: parent_def)
  have ck: "c \<noteq> k" using c parent_less [OF c0] by auto
  have pk: "parent k < k" using parent_less [OF k0] .
  have "hvalue (h ! parent k) \<le> hvalue (h ! k)"
    using heap_ancestor_le [OF o k0] k by simp
  moreover have "hvalue (h ! k) \<le> hvalue (h ! c)"
    using heap_ancestor_le [OF o c0] cl c by simp
  ultimately show "hvalue (moveLast h k ! parent k) \<le> hvalue (moveLast h k ! c)"
    using ck pk k cl by (simp add: moveLast_nth)
qed

lemma heap_up_moveLast:
  assumes o: "heap_ordered h" and k: "k < length h - 1" and k0: "0 < k"
    and lt: "hvalue (last h) < hvalue (h ! parent k)"
  shows "heap_up (moveLast h k) k \<and> smallestOf (moveLast h k) k = k"
proof -
  have hne: "h \<noteq> []" using k by auto
  have pk: "parent k < k" using parent_less [OF k0] .
  have pkk: "hvalue (h ! parent k) \<le> hvalue (h ! k)"
    using heap_ancestor_le [OF o k0] k by simp
  have child: "hvalue (h ! parent k) \<le> hvalue (h ! c)"
    if "0 < c" "c < length h - 1" "parent c = k" for c
  proof -
    have "hvalue (h ! k) \<le> hvalue (h ! c)"
      using heap_ancestor_le [OF o that(1)] that by simp
    with pkk show ?thesis by simp
  qed
  have up: "heap_up (moveLast h k) k"
    unfolding heap_up_def
  proof (intro conjI allI impI)
    fix i assume i: "0 < i \<and> i < length (moveLast h k) \<and> i \<noteq> k"
    then have il: "i < length h - 1" by simp
    then have pl: "parent i < length h - 1" using parent_less [of i] i by simp
    have il': "i < length h" using il by simp
    have old: "hvalue (h ! parent i) \<le> hvalue (h ! i)"
      using heap_ancestor_le [OF o _ il'] i by simp
    show "hvalue (moveLast h k ! parent i) \<le> hvalue (moveLast h k ! i)"
    proof (cases "parent i = k")
      case True
      from child [of i] i il True lt have "hvalue (last h) \<le> hvalue (h ! i)" by simp
      with True i il pl show ?thesis by (simp add: moveLast_nth)
    next
      case False
      with i old il pl show ?thesis by (simp add: moveLast_nth)
    qed
  next
    fix c assume c: "0 < c \<and> c < length (moveLast h k) \<and> parent c = k"
    then have cl: "c < length h - 1" by simp
    have ck: "c \<noteq> k" using c parent_less [of c] by auto
    from child [of c] c cl ck pk k
    show "hvalue (moveLast h k ! parent k) \<le> hvalue (moveLast h k ! c)"
      by (simp add: moveLast_nth)
  qed
  have lc: "\<not> hvalue (moveLast h k ! c) < hvalue (moveLast h k ! k)"
    if "c < length (moveLast h k)" "c = leftChild k \<or> c = rightChild k" for c
  proof -
    have c0: "0 < c" and pc: "parent c = k" and ck: "c \<noteq> k"
      using that(2) child_greater [of k] by auto
    from child [OF c0 _ pc] that(1) lt have "hvalue (last h) \<le> hvalue (h ! c)" by simp
    then show ?thesis using that(1) ck k by (simp add: moveLast_nth)
  qed
  have "smallestOf (moveLast h k) k = k"
    using lc [of "leftChild k"] lc [of "rightChild k"]
    by (auto simp: smallestOf_def Let_def)
  with up show ?thesis by simp
qed

lemma heap_ordered_butlast: "heap_ordered h \<Longrightarrow> heap_ordered (butlast h)"
proof -
  assume o: "heap_ordered h"
  show ?thesis
    unfolding heap_ordered_iff
  proof (intro allI impI)
    fix i assume i: "0 < i \<and> i < length (butlast h)"
    then have il: "i < length h" and ib: "i < length h - 1" by auto
    have pb: "parent i < length h - 1" using parent_less [of i] i ib by simp
    from heap_ancestor_le [OF o _ il] i
    show "hvalue (butlast h ! parent i) \<le> hvalue (butlast h ! i)"
      using ib pb by (simp add: nth_butlast)
  qed
qed

lemma moveLast_last: "h \<noteq> [] \<Longrightarrow> moveLast h (length h - 1) = butlast h"
  by (simp add: moveLast_def last_conv_nth)

lemma mset_moveLast:
  assumes "k < length h"
  shows "add_mset (h ! k) (mset (moveLast h k)) = mset h"
proof -
  from assms have hne: "h \<noteq> []" by auto
  define bs where "bs = butlast h"
  define l where "l = last h"
  have h: "h = bs @ [l]" using hne by (simp add: bs_def l_def)
  show ?thesis
  proof (cases "k < length bs")
    case True
    have "moveLast h k = bs[k := l]"
      using True by (simp add: moveLast_def h list_update_append)
    moreover have "h ! k = bs ! k" using True by (simp add: h nth_append)
    moreover have "add_mset (bs ! k) (mset (bs[k := l])) = add_mset l (mset bs)"
      using True by (simp add: mset_update)
    ultimately show ?thesis by (simp add: h)
  next
    case False
    with assms have k: "k = length bs" by (simp add: h)
    then have "moveLast h k = bs" by (simp add: moveLast_def h)
    moreover have "h ! k = l" using k by (simp add: h)
    ultimately show ?thesis by (simp add: h)
  qed
qed

lemma hvalues_moveLast:
  "k < length h \<Longrightarrow> add_mset (hvalue (h ! k)) (hvalues (moveLast h k)) = hvalues h"
proof -
  assume "k < length h"
  from mset_moveLast [OF this]
  have "image_mset hvalue (add_mset (h ! k) (mset (moveLast h k))) = image_mset hvalue (mset h)"
    by simp
  then show ?thesis by (simp add: hvalues_def)
qed

lemma MinHeap_extractMin_empty:
  "heap mh = [] \<Longrightarrow> MinHeap_extractMin mh p = (mh, None, p)"
  by (simp add: MinHeap_extractMin_def)

lemma MinHeap_extractMin_nonempty:
  assumes "heap mh \<noteq> []"
  shows "\<exists>mh' p'. MinHeap_extractMin mh p = (mh', Some (heap mh ! 0), p') \<and>
           heapNextNodeId mh' = heapNextNodeId mh \<and>
           add_mset (hvalue (heap mh ! 0)) (hvalues (heap mh')) = hvalues (heap mh) \<and>
           (heap_ordered (heap mh) \<longrightarrow> heap_ordered (heap mh'))"
proof (cases "moveLast (heap mh) 0 = []")
  case True
  have "hvalues (moveLast (heap mh) 0) = {#}" using True by (simp add: hvalues_def)
  with hvalues_moveLast [of 0 "heap mh"] assms
  have "add_mset (hvalue (heap mh ! 0)) {#} = hvalues (heap mh)" by simp
  with True assms show ?thesis
    by (simp add: MinHeap_extractMin_def moveLast_def [symmetric] Let_def heap_ordered_def
          hvalues_def)
next
  case False
  let ?h = "moveLast (heap mh) 0"
  obtain h' c' p' where s: "siftDown ?h 0 (p @ [0]) = (h', c', p')"
    by (metis prod_cases3)
  from False have l: "0 < length ?h" by (simp del: length_moveLast)
  then have l1: "0 < length (heap mh) - 1" by simp
  have hv: "hvalues h' = hvalues ?h"
    using siftDown_hvalues [OF l, of "p @ [0]"] s by simp
  have ord: "heap_ordered h'" if "heap_ordered (heap mh)"
    using siftDown_ordered [OF heap_down_moveLast [OF that l1] l, of "p @ [0]"] s by simp
  have "MinHeap_extractMin mh p = (mh\<lparr>heap := h'\<rparr>, Some (heap mh ! 0), p')"
    using assms False s by (simp add: MinHeap_extractMin_def moveLast_def [symmetric] Let_def)
  with hv ord hvalues_moveLast [of 0 "heap mh"] assms show ?thesis by simp
qed

lemma findIndex_cases:
  "findIndex h v i = -1 \<and> v \<notin> hvalue ` set h \<or>
   (\<exists>j < length h. findIndex h v i = int (i + j) \<and> hvalue (h ! j) = v)"
proof (induction h arbitrary: i)
  case Nil
  show ?case by simp
next
  case (Cons x xs)
  show ?case
  proof (cases "hvalue x = v")
    case True
    then show ?thesis by auto
  next
    case False
    from Cons.IH [of "Suc i"] show ?thesis
    proof
      assume "findIndex xs v (Suc i) = - 1 \<and> v \<notin> hvalue ` set xs"
      with False show ?thesis by auto
    next
      assume "\<exists>j<length xs. findIndex xs v (Suc i) = int (Suc i + j) \<and> hvalue (xs ! j) = v"
      then obtain j where "j < length xs" "findIndex xs v (Suc i) = int (Suc i + j)"
          "hvalue (xs ! j) = v" by blast
      with False have "Suc j < length (x # xs) \<and> findIndex (x # xs) v i = int (i + Suc j) \<and>
          hvalue ((x # xs) ! Suc j) = v" by simp
      then show ?thesis by blast
    qed
  qed
qed

lemma remove_restore_ordered:
  assumes o: "heap_ordered h" and k: "k < length h - 1"
  shows "heap_ordered (fst (siftUp (fst (siftDown (moveLast h k) k p))
                                   (fst (snd (siftDown (moveLast h k) k p)))
                                   (snd (snd (siftDown (moveLast h k) k p)))))"
proof (cases "0 < k \<and> hvalue (last h) < hvalue (h ! parent k)")
  case True
  from heap_up_moveLast [OF o k] True
  have u: "heap_up (moveLast h k) k" and s: "smallestOf (moveLast h k) k = k" by auto
  have "k < length (moveLast h k)" using k by simp
  from siftUp_ordered [OF u this] s show ?thesis
    by (simp add: siftDown_stop)
next
  case False
  then have "0 < k \<Longrightarrow> hvalue (h ! parent k) \<le> hvalue (last h)" by auto
  from heap_down_moveLast [OF o k this] have d: "heap_down (moveLast h k) k" .
  have kl: "k < length (moveLast h k)" using k by simp
  let ?r = "siftDown (moveLast h k) k p"
  have o1: "heap_ordered (fst ?r)" using siftDown_ordered [OF d kl] .
  have c1: "fst (snd ?r) < length (fst ?r)" using siftDown_current [OF kl] .
  from siftUp_ordered_id [OF o1 c1] o1 show ?thesis by simp
qed

lemma remove_restore_hvalues:
  assumes k: "k < length h - 1"
  shows "hvalues (fst (siftUp (fst (siftDown (moveLast h k) k p))
                              (fst (snd (siftDown (moveLast h k) k p)))
                              (snd (snd (siftDown (moveLast h k) k p)))))
           = hvalues (moveLast h k)"
proof -
  have kl: "k < length (moveLast h k)" using k by simp
  let ?r = "siftDown (moveLast h k) k p"
  have c1: "fst (snd ?r) < length (fst ?r)" using siftDown_current [OF kl] .
  from siftUp_hvalues [OF c1] siftDown_hvalues [OF kl] show ?thesis by simp
qed

lemma MinHeap_remove_absent:
  "v \<notin> hvalue ` set (heap mh) \<Longrightarrow> MinHeap_remove mh v p = (mh, False, p)"
  using findIndex_cases [of "heap mh" v 0]
  by (auto simp: MinHeap_remove_def)

lemma MinHeap_remove_present:
  assumes "v \<in> hvalue ` set (heap mh)"
  shows "\<exists>mh' p'. MinHeap_remove mh v p = (mh', True, p') \<and>
           heapNextNodeId mh' = heapNextNodeId mh \<and>
           add_mset v (hvalues (heap mh')) = hvalues (heap mh) \<and>
           (heap_ordered (heap mh) \<longrightarrow> heap_ordered (heap mh'))"
proof -
  let ?h = "heap mh"
  from findIndex_cases [of ?h v 0] assms obtain k
    where k: "k < length ?h" "findIndex ?h v 0 = int k" "hvalue (?h ! k) = v"
    by auto
  have hv: "add_mset v (hvalues (moveLast ?h k)) = hvalues ?h"
    using hvalues_moveLast [OF k(1)] k(3) by simp
  show ?thesis
  proof (cases "k < length ?h - 1")
    case True
    let ?r = "siftDown (moveLast ?h k) k (p @ [k])"
    let ?u = "siftUp (fst ?r) (fst (snd ?r)) (snd (snd ?r))"
    have "MinHeap_remove mh v p = (mh\<lparr>heap := fst ?u\<rparr>, True, snd (snd ?u))"
      using k True
      by (simp add: MinHeap_remove_def moveLast_def [symmetric] Let_def case_prod_beta)
    with remove_restore_ordered [OF _ True, of "p @ [k]"]
         remove_restore_hvalues [OF True, of "p @ [k]"] hv
    show ?thesis by simp
  next
    case False
    with k(1) have kl: "k = length ?h - 1" by simp
    have hne: "?h \<noteq> []" using k(1) by auto
    have ml: "moveLast ?h k = butlast ?h" using moveLast_last [OF hne] kl by simp
    have "MinHeap_remove mh v p = (mh\<lparr>heap := butlast ?h\<rparr>, True, p @ [k])"
      using k False ml
      by (simp add: MinHeap_remove_def moveLast_def [symmetric] Let_def)
    with heap_ordered_butlast [of ?h] hv ml show ?thesis by simp
  qed
qed

lemma heap_reachable_ordered: "heap_reachable mh \<Longrightarrow> heap_ordered (heap mh)"
proof (induction rule: heap_reachable.induct)
  case heap_init
  show ?case by (simp add: MinHeap_init_def heap_ordered_def)
next
  case (heap_insert mh v p mh' p')
  from MinHeap_insert_ordered [OF heap_insert.IH, of v p] heap_insert.hyps(2)
  show ?case by simp
next
  case (heap_extractMin mh p mh' cell p')
  show ?case
  proof (cases "heap mh = []")
    case True
    with heap_extractMin show ?thesis by (simp add: MinHeap_extractMin_empty)
  next
    case False
    from MinHeap_extractMin_nonempty [OF False, of p] heap_extractMin show ?thesis by auto
  qed
next
  case (heap_remove mh v p mh' found p')
  show ?case
  proof (cases "v \<in> hvalue ` set (heap mh)")
    case True
    from MinHeap_remove_present [OF True, of p] heap_remove show ?thesis by auto
  next
    case False
    with heap_remove show ?thesis by (simp add: MinHeap_remove_absent)
  qed
next
  case (heap_search mh v p mh' index p')
  then show ?case by (simp add: MinHeap_search_def)
next
  case (heap_clear mh)
  show ?case by (simp add: MinHeap_clear_def heap_ordered_def)
qed

lemma insertAll_reachable: "heap_reachable mh \<Longrightarrow> heap_reachable (insertAll mh vs)"
proof (induction vs arbitrary: mh)
  case Nil
  then show ?case by simp
next
  case (Cons v vs)
  have "heap_reachable (fst (MinHeap_insert mh v []))"
    using heap_insert [OF Cons.prems, of v "[]"] by (metis prod.collapse)
  from Cons.IH [OF this] show ?case by simp
qed

lemma insertAll_hvalues: "hvalues (heap (insertAll mh vs)) = hvalues (heap mh) + mset vs"
  by (induction vs arbitrary: mh) (simp_all add: MinHeap_insert_hvalues)

lemma hvalues_nth: "x \<in># hvalues h \<Longrightarrow> \<exists>i < length h. x = hvalue (h ! i)"
  by (auto simp: hvalues_def in_set_conv_nth)

lemma extractAll_sorted_mset:
  "heap_ordered (heap mh) \<Longrightarrow> length (heap mh) = n \<Longrightarrow>
   sorted (extractAll mh) \<and> mset (extractAll mh) = hvalues (heap mh)"
proof (induction n arbitrary: mh)
  case 0
  then have "heap mh = []" by simp
  then show ?case
    by (subst (1 2) extractAll.simps) (simp add: MinHeap_extractMin_empty hvalues_def)
next
  case (Suc n)
  then have ne: "heap mh \<noteq> []" by auto
  from MinHeap_extractMin_nonempty [OF ne, of "[]"] Suc.prems(1) obtain mh' p'
    where e: "MinHeap_extractMin mh [] = (mh', Some (heap mh ! 0), p')"
      and hv: "add_mset (hvalue (heap mh ! 0)) (hvalues (heap mh')) = hvalues (heap mh)"
      and o: "heap_ordered (heap mh')"
    by blast
  have "size (hvalues (heap mh)) = Suc n" using Suc.prems(2) by (simp add: hvalues_def)
  with hv have "size (hvalues (heap mh')) = n" by (metis size_add_mset nat.inject)
  then have len: "length (heap mh') = n" by (simp add: hvalues_def)
  from Suc.IH [OF o len]
  have ih: "sorted (extractAll mh')" "mset (extractAll mh') = hvalues (heap mh')" by auto
  have unf: "extractAll mh = hvalue (heap mh ! 0) # extractAll mh'"
    by (subst extractAll.simps) (simp add: e)
  have "hvalue (heap mh ! 0) \<le> x" if "x \<in> set (extractAll mh')" for x
  proof -
    from that ih(2) have "x \<in># hvalues (heap mh')" by (metis set_mset_mset)
    then have "x \<in># add_mset (hvalue (heap mh ! 0)) (hvalues (heap mh'))" by simp
    with hv have "x \<in># hvalues (heap mh)" by simp
    from hvalues_nth [OF this] obtain i where "i < length (heap mh)" "x = hvalue (heap mh ! i)"
      by blast
    with heap_root_min [OF Suc.prems(1)] show ?thesis by simp
  qed
  with ih hv unf show ?case by simp
qed

text \<open>Claim C2. In every state of the heap reached from the empty heap by \<^verbatim>\<open>insert\<close>,
  \<^verbatim>\<open>extractMin\<close>, \<^verbatim>\<open>remove\<close> (and \<^verbatim>\<open>search\<close>, \<^verbatim>\<open>clear\<close>), the value at
  \<open>parent i = (i - 1) div 2\<close> is at most the value at \<open>i\<close> for every index
  \<open>0 < i < size\<close>; every index \<open>0 \<le> i < size\<close> of the backing array holds a cell
  (the array is a vector of exactly \<open>size\<close> cells, none of them missing); and
  \<^verbatim>\<open>extractMin\<close> repeated until the heap is empty returns the values stored in the
  heap in non-decreasing order. In particular, after inserting the values \<open>vs\<close> into
  the empty heap, the extracted sequence is sorted and is, as a multiset, \<open>vs\<close>.\<close>

theorem MinHeap_order_and_sort:
  "(heap_reachable mh \<longrightarrow>
      heap_ordered (heap mh) \<and>
      (\<forall>i. 0 \<le> i \<and> i < MinHeap_getSize mh \<longrightarrow> (\<exists>cell. vectorAt (heap mh) i = Inr cell)) \<and>
      sorted (extractAll mh) \<and> mset (extractAll mh) = hvalues (heap mh)) \<and>
   heap_reachable (insertAll MinHeap_init vs) \<and>
   sorted (extractAll (insertAll MinHeap_init vs)) \<and>
   mset (extractAll (insertAll MinHeap_init vs)) = mset vs"
proof -
  have r: "heap_reachable (insertAll MinHeap_init vs)"
    using insertAll_reachable [OF heap_init] .
  have a: "heap_ordered (heap m) \<and> sorted (extractAll m) \<and> mset (extractAll m) = hvalues (heap m)"
    if "heap_reachable m" for m
    using extractAll_sorted_mset [OF heap_reachable_ordered [OF that] refl]
          heap_reachable_ordered [OF that]
    by simp
  have d: "\<forall>i. 0 \<le> i \<and> i < MinHeap_getSize mh \<longrightarrow> (\<exists>cell. vectorAt (heap mh) i = Inr cell)"
    by (simp add: MinHeap_getSize_def vectorAt_def)
  have "hvalues (heap (insertAll MinHeap_init vs)) = mset vs"
    by (simp add: insertAll_hvalues) (simp add: MinHeap_init_def hvalues_def)
  with a [OF r] r a [of mh] d show ?thesis by simp
qed

lemma heap_5_3_8_1_4:
  "insertAll MinHeap_init [5, 3, 8, 1, 4] =
     \<lparr>heap = [\<lparr>hvalue = 1, hid = 3\<rparr>, \<lparr>hvalue = 3, hid = 1\<rparr>, \<lparr>hvalue = 8, hid = 2\<rparr>,
              \<lparr>hvalue = 5, hid = 0\<rparr>, \<lparr>hvalue = 4, hid = 4\<rparr>],
      heapNextNodeId = 5\<rparr>"
  by (simp add: MinHeap_init_def MinHeap_insert_def siftUp.simps parent_def swap_def)

lemma extractAll_1_3_8_5_4:
  "extractAll \<lparr>heap = [\<lparr>hvalue = 1, hid = 3\<rparr>, \<lparr>hvalue = 3, hid = 1\<rparr>, \<lparr>hvalue = 8, hid = 2\<rparr>,
                       \<lparr>hvalue = 5, hid = 0\<rparr>, \<lparr>hvalue = 4, hid = 4\<rparr>],
               heapNextNodeId = 5\<rparr> = [1, 3, 4, 5, 8]"
  by (simp add: extractAll.simps MinHeap_extractMin_def siftDown.simps smallestOf_def
        leftChild_def rightChild_def swap_def Let_def)

theorem MinHeap_order_and_sort_witness:
  "heap_reachable (insertAll MinHeap_init [5, 3, 8, 1, 4]) \<and>
   map hvalue (heap (insertAll MinHeap_init [5, 3, 8, 1, 4])) = [1, 3, 8, 5, 4] \<and>
   heap_ordered (heap (insertAll MinHeap_init [5, 3, 8, 1, 4])) \<and>
   extractAll (insertAll MinHeap_init [5, 3, 8, 1, 4]) = [1, 3, 4, 5, 8]"
  using MinHeap_order_and_sort [of "insertAll MinHeap_init [5, 3, 8, 1, 4]" "[5, 3, 8, 1, 4]"]
  unfolding heap_5_3_8_1_4 by (simp add: extractAll_1_3_8_5_4)

subsection \<open>Binary search tree: in-order sequence, duplicates, deletedNode\<close>

lemma BST_inorderHelper_eq: "BST_inorderHelper t acc = acc @ bst_inorder t"
  by (induction t arbitrary: acc) auto

lemma BST_inorderTraversal_eq: "BST_inorderTraversal t = bst_inorder (bstRoot t)"
  by (simp add: BST_inorderTraversal_def BST_inorderHelper_eq)

lemma bst_ordered_sorted: "bst_ordered t \<longleftrightarrow> sorted_wrt (<) (bst_inorder t)"
proof (induction t)
  case Null
  show ?case by simp
next
  case (Node x l r i)
  have "(\<forall>a \<in> set (bst_inorder l). \<forall>b \<in> set (bst_inorder r). a < b)"
    if "\<forall>y \<in> set (bst_inorder l). y < x" "\<forall>y \<in> set (bst_inorder r). x < y"
    using that by fastforce
  with Node show ?case
    by (auto simp: sorted_wrt_append)
qed

lemma insort_left: "v < x \<Longrightarrow> insort v (xs @ x # ys) = insort v xs @ x # ys"
  by (induction xs) auto

lemma insort_right:
  "\<forall>y \<in> set xs. y < v \<Longrightarrow> x < v \<Longrightarrow> insort v (xs @ x # ys) = xs @ x # insort v ys"
  by (induction xs) auto

lemma BST_insertHelper_inorder:
  "bst_ordered t \<Longrightarrow>
   bst_inorder (fst (BST_insertHelper t v c)) =
     (if v \<in> set (bst_inorder t) then bst_inorder t else insort v (bst_inorder t))"
proof (induction t arbitrary: c)
  case Null
  show ?case by simp
next
  case (Node x l r i)
  consider (lt) "v < x" | (gt) "v > x" | (eq) "v = x" by linarith
  then show ?case
  proof cases
    case lt
    with Node.prems have "v \<notin> set (bst_inorder r)" by auto
    with lt Node show ?thesis
      by (auto simp: insort_left case_prod_beta Let_def)
  next
    case gt
    with Node.prems have "v \<notin> set (bst_inorder l)" "\<forall>y \<in> set (bst_inorder l). y < v"
      by auto
    with gt Node show ?thesis
      by (auto simp: insort_right case_prod_beta Let_def)
  next
    case eq
    then show ?thesis by simp
  qed
qed

lemma BST_findMinWithPath_fst: "fst (BST_findMinWithPath t p) = BST_findMin t"
  by (induction t arbitrary: p) auto

lemma BST_findMin_hd:
  "t \<noteq> Null \<Longrightarrow> \<exists>l r i. BST_findMin t = Node (hd (bst_inorder t)) l r i"
proof (induction t)
  case Null
  then show ?case by simp
next
  case (Node x l r i)
  show ?case
  proof (cases "l = Null")
    case True
    then show ?thesis by simp
  next
    case False
    with Node.IH(1) obtain l' r' i' where "BST_findMin l = Node (hd (bst_inorder l)) l' r' i'"
      by blast
    moreover have "bst_inorder l \<noteq> []" using False by (cases l) auto
    ultimately show ?thesis using False by simp
  qed
qed

lemma bst_inorder_Nil_iff [simp]: "bst_inorder t = [] \<longleftrightarrow> t = Null"
  by (cases t) auto

lemma BST_deleteHelper_inorder:
  "bst_ordered t \<Longrightarrow>
   bst_inorder (fst (BST_deleteHelper t v c)) = remove1 v (bst_inorder t)"
proof (induction t arbitrary: v c)
  case Null
  show ?case by simp
next
  case (Node x l r i)
  consider (lt) "v < x" | (gt) "v > x" | (eq) "v = x" by linarith
  then show ?case
  proof cases
    case lt
    with Node.prems have "v \<notin> set (bst_inorder r)" by auto
    with lt Node show ?thesis
      by (auto simp: remove1_append remove1_idem case_prod_beta Let_def)
  next
    case gt
    with Node.prems have "v \<notin> set (bst_inorder l)" by auto
    with gt Node show ?thesis
      by (auto simp: remove1_append remove1_idem case_prod_beta Let_def)
  next
    case eq
    from Node.prems have nl: "x \<notin> set (bst_inorder l)" by auto
    show ?thesis
    proof (cases "l = Null \<or> r = Null")
      case True
      with eq nl show ?thesis by (auto simp: remove1_append Let_def)
    next
      case False
      then have r: "r \<noteq> Null" and l: "l \<noteq> Null" by auto
      from BST_findMin_hd [OF r] obtain sl sr si
        where m: "BST_findMin r = Node (hd (bst_inorder r)) sl sr si" by blast
      let ?s = "hd (bst_inorder r)"
      have rne: "bst_inorder r \<noteq> []" using r by simp
      from Node.prems have "bst_ordered r" by simp
      from Node.IH(2) [OF this]
      have ih: "\<And>c. bst_inorder (fst (BST_deleteHelper r ?s c)) = remove1 ?s (bst_inorder r)" .
      have "remove1 ?s (bst_inorder r) = tl (bst_inorder r)"
        using rne by (cases "bst_inorder r") auto
      with ih have ih': "\<And>c. ?s # bst_inorder (fst (BST_deleteHelper r ?s c)) = bst_inorder r"
        using rne by simp
      have fm: "\<And>p. fst (BST_findMinWithPath r p) = Node ?s sl sr si"
        using m by (simp add: BST_findMinWithPath_fst)
      show ?thesis
        using eq l r nl ih' fm [of "[]"]
        by (auto simp: remove1_append Let_def case_prod_beta)
    qed
  qed
qed

lemma BST_insertHelper_duplicate:
  "bst_ordered t \<Longrightarrow> v \<in> set (bst_inorder t) \<Longrightarrow>
   \<exists>tr. BST_insertHelper t v c = (t, c\<lparr>b_path := b_path c @ tr, b_success := False\<rparr>) \<and>
        tr \<noteq> [] \<and> bst_holds t (last tr) v"
proof (induction t arbitrary: c)
  case Null
  then show ?case by simp
next
  case (Node x l r i)
  let ?c1 = "c\<lparr>b_path := b_path c @ [i]\<rparr>"
  consider (lt) "v < x" | (gt) "v > x" | (eq) "v = x" by linarith
  then show ?case
  proof cases
    case lt
    with Node.prems have "v \<in> set (bst_inorder l)" "bst_ordered l" by auto
    from Node.IH(1) [OF this(2,1), of ?c1] obtain tr
      where tr: "BST_insertHelper l v ?c1 = (l, ?c1\<lparr>b_path := b_path ?c1 @ tr, b_success := False\<rparr>)"
        "tr \<noteq> []" "bst_holds l (last tr) v"
      by blast
    with lt show ?thesis
      by (intro exI [of _ "i # tr"]) simp
  next
    case gt
    with Node.prems have "v \<in> set (bst_inorder r)" "bst_ordered r" by auto
    from Node.IH(2) [OF this(2,1), of ?c1] obtain tr
      where tr: "BST_insertHelper r v ?c1 = (r, ?c1\<lparr>b_path := b_path ?c1 @ tr, b_success := False\<rparr>)"
        "tr \<noteq> []" "bst_holds r (last tr) v"
      by blast
    with gt show ?thesis
      by (intro exI [of _ "i # tr"]) simp
  next
    case eq
    then show ?thesis
      by (intro exI [of _ "[i]"]) simp
  qed
qed

lemma BST_deleteHelper_deletedNode:
  "fst (BST_searchHelper t v p) = Some i \<Longrightarrow>
   b_deletedNode (snd (BST_deleteHelper t v c)) = Some i"
proof (induction t arbitrary: p c)
  case Null
  then show ?case by simp
next
  case (Node x l r j)
  consider (lt) "v < x" | (gt) "v > x" | (eq) "v = x" by linarith
  then show ?case
  proof cases
    case lt
    with Node show ?thesis by (auto simp: case_prod_beta Let_def)
  next
    case gt
    with Node show ?thesis by (auto simp: case_prod_beta Let_def)
  next
    case eq
    with Node.prems show ?thesis by (auto simp: case_prod_beta Let_def)
  qed
qed

lemma BST_deleteHelper_two_children:
  "l \<noteq> Null \<Longrightarrow> r \<noteq> Null \<Longrightarrow>
   BST_deleteHelper (Node v l r i) v c = (t', c') \<Longrightarrow>
   (\<exists>r'. t' = Node (nvalue (BST_findMin r)) l r' i) \<and>
   b_deletedNode c' = Some i \<and> b_successor c' = Some (nid (BST_findMin r))"
  using BST_findMinWithPath_fst [of r "[]"]
  by (auto simp: case_prod_beta Let_def)

subsection \<open>AVL tree\<close>

lemma realHeight_nonneg: "0 \<le> realHeight t"
  by (induction t) auto

lemma realHeight_0_iff [simp]: "realHeight t = 0 \<longleftrightarrow> t = AVLNull"
proof (cases t)
  case (AVLNode x l r h i)
  then show ?thesis
    using realHeight_nonneg [of l] realHeight_nonneg [of r] by auto
qed simp

lemma getHeight_avl: "avl_inv t \<Longrightarrow> getHeight t = realHeight t"
  by (cases t) auto

lemma insertRebalance_left:
  assumes "avl_inv l" "avl_inv r"
    and "realHeight l - realHeight r \<in> {-1, 0, 1, 2}"
    and "realHeight l = realHeight r + 2 \<Longrightarrow> leans l v"
  shows "\<exists>t' c'. insertRebalance (AVLNode x l r h i) v c = Some (t', c') \<and> avl_inv t' \<and>
           realHeight t' = (if realHeight l = realHeight r + 2 then realHeight l
                            else 1 + max (realHeight l) (realHeight r))"
proof (cases "realHeight l = realHeight r + 2")
  case False
  with assms show ?thesis
    by (auto simp: insertRebalance.simps getHeight_avl Let_def)
next
  case True
  from assms(4) [OF True] obtain lx ll lr lh li where l: "l = AVLNode lx ll lr lh li"
    by (cases l) auto
  from assms(4) [OF True] l consider
    (LL) "v < lx" "realHeight ll = realHeight lr + 1" |
    (LR) "v > lx" "realHeight lr = realHeight ll + 1"
    by auto
  then show ?thesis
  proof cases
    case LL
    with True assms(1,2) l show ?thesis
      by (auto simp: insertRebalance.simps getHeight_avl Let_def)
  next
    case LR
    then have "lr \<noteq> AVLNull" using realHeight_nonneg [of ll] by auto
    then obtain lrx lrl lrr lrh lri where lr: "lr = AVLNode lrx lrl lrr lrh lri"
      by (cases lr) auto
    with LR True assms(1,2) l show ?thesis
      by (auto simp: insertRebalance.simps getHeight_avl Let_def)
  qed
qed

lemma insertRebalance_right:
  assumes "avl_inv l" "avl_inv r"
    and "realHeight r - realHeight l \<in> {-1, 0, 1, 2}"
    and "realHeight r = realHeight l + 2 \<Longrightarrow> leans r v"
  shows "\<exists>t' c'. insertRebalance (AVLNode x l r h i) v c = Some (t', c') \<and> avl_inv t' \<and>
           realHeight t' = (if realHeight r = realHeight l + 2 then realHeight r
                            else 1 + max (realHeight l) (realHeight r))"
proof (cases "realHeight r = realHeight l + 2")
  case False
  with assms show ?thesis
    by (auto simp: insertRebalance.simps getHeight_avl Let_def)
next
  case True
  from assms(4) [OF True] obtain rx rl rr rh ri where r: "r = AVLNode rx rl rr rh ri"
    by (cases r) auto
  from assms(4) [OF True] r consider
    (RR) "v > rx" "realHeight rr = realHeight rl + 1" |
    (RL) "v < rx" "realHeight rl = realHeight rr + 1"
    by auto
  then show ?thesis
  proof cases
    case RR
    with True assms(1,2) r show ?thesis
      by (auto simp: insertRebalance.simps getHeight_avl Let_def)
  next
    case RL
    then have "rl \<noteq> AVLNull" using realHeight_nonneg [of rr] by auto
    then obtain rlx rll rlr rlh rli where rl: "rl = AVLNode rlx rll rlr rlh rli"
      by (cases rl) auto
    with RL True assms(1,2) r show ?thesis
      by (auto simp: insertRebalance.simps getHeight_avl Let_def)
  qed
qed

lemma insertHelper_avl:
  "avl_inv t \<Longrightarrow>
   \<exists>t' c'. AVLTree_insertHelper t v c = Some (t', c') \<and> avl_inv t' \<and> grows t t' v"
proof (induction t arbitrary: c)
  case AVLNull
  show ?case by (simp add: grows_def)
next
  case (AVLNode x l r h i)
  let ?c1 = "c\<lparr>a_path := a_path c @ [i]\<rparr>"
  from AVLNode.prems have inv: "avl_inv l" "avl_inv r"
    and bal: "realHeight l - realHeight r \<in> {-1, 0, 1}"
    and h: "h = 1 + max (realHeight l) (realHeight r)"
    by auto
  consider (lt) "v < x" | (gt) "v > x" | (eq) "v = x" by linarith
  then show ?case
  proof cases
    case lt
    from AVLNode.IH(1) [OF inv(1), of ?c1]
    obtain l' c2 where l': "AVLTree_insertHelper l v ?c1 = Some (l', c2)" "avl_inv l'"
        "grows l l' v"
      by blast
    have b: "realHeight l' - realHeight r \<in> {-1, 0, 1, 2}"
      using l'(3) bal by (auto simp: grows_def)
    have ln: "realHeight l' = realHeight r + 2 \<Longrightarrow> leans l' v"
      using l'(3) bal realHeight_nonneg [of r] by (auto simp: grows_def)
    from insertRebalance_left [OF l'(2) inv(2) b ln, of x h i c2]
    obtain t' c' where t': "insertRebalance (AVLNode x l' r h i) v c2 = Some (t', c')"
        "avl_inv t'"
        "realHeight t' = (if realHeight l' = realHeight r + 2 then realHeight l'
                          else 1 + max (realHeight l') (realHeight r))"
      by blast
    have "grows (AVLNode x l r h i) t' v"
    proof (cases "realHeight l' = realHeight r + 2")
      case True
      with t'(3) l'(3) bal show ?thesis by (auto simp: grows_def)
    next
      case False
      have "t' = AVLNode x l' r (1 + max (realHeight l') (realHeight r)) i"
        using False t'(1) b l'(2) inv(2) by (auto simp: insertRebalance.simps getHeight_avl Let_def)
      with False l'(3) bal lt show ?thesis
        by (auto simp: grows_def)
    qed
    with t' l' lt show ?thesis by simp
  next
    case gt
    from AVLNode.IH(2) [OF inv(2), of ?c1]
    obtain r' c2 where r': "AVLTree_insertHelper r v ?c1 = Some (r', c2)" "avl_inv r'"
        "grows r r' v"
      by blast
    have b: "realHeight r' - realHeight l \<in> {-1, 0, 1, 2}"
      using r'(3) bal by (auto simp: grows_def)
    have ln: "realHeight r' = realHeight l + 2 \<Longrightarrow> leans r' v"
      using r'(3) bal realHeight_nonneg [of l] by (auto simp: grows_def)
    from insertRebalance_right [OF inv(1) r'(2) b ln, of x h i c2]
    obtain t' c' where t': "insertRebalance (AVLNode x l r' h i) v c2 = Some (t', c')"
        "avl_inv t'"
        "realHeight t' = (if realHeight r' = realHeight l + 2 then realHeight r'
                          else 1 + max (realHeight l) (realHeight r'))"
      by blast
    have "grows (AVLNode x l r h i) t' v"
    proof (cases "realHeight r' = realHeight l + 2")
      case True
      with t'(3) r'(3) bal show ?thesis by (auto simp: grows_def)
    next
      case False
      have "t' = AVLNode x l r' (1 + max (realHeight l) (realHeight r')) i"
        using False t'(1) b r'(2) inv(1) by (auto simp: insertRebalance.simps getHeight_avl Let_def)
      with False r'(3) bal gt show ?thesis
        by (auto simp: grows_def)
    qed
    with t' r' gt show ?thesis by simp
  next
    case eq
    with AVLNode.prems show ?thesis by (simp add: grows_def)
  qed
qed

lemma deleteRebalance_avl:
  assumes "avl_inv l" "avl_inv r"
    and "realHeight l - realHeight r \<in> {-2, -1, 0, 1, 2}"
  shows "\<exists>t' c'. deleteRebalance (AVLNode x l r h i) c = Some (t', c') \<and> avl_inv t' \<and>
           (if realHeight l - realHeight r \<in> {-1, 0, 1}
            then realHeight t' = 1 + max (realHeight l) (realHeight r)
            else realHeight t' = max (realHeight l) (realHeight r) \<or>
                 realHeight t' = 1 + max (realHeight l) (realHeight r))"
proof -
  consider (ok) "realHeight l - realHeight r \<in> {-1, 0, 1}"
    | (left) "realHeight l = realHeight r + 2"
    | (right) "realHeight r = realHeight l + 2"
    using assms(3) by auto
  then show ?thesis
  proof cases
    case ok
    with assms show ?thesis by (auto simp: deleteRebalance.simps getHeight_avl Let_def)
  next
    case left
    then have "l \<noteq> AVLNull" using realHeight_nonneg [of r] by auto
    then obtain lx ll lr lh li where l: "l = AVLNode lx ll lr lh li"
      by (cases l) auto
    show ?thesis
    proof (cases "realHeight ll \<ge> realHeight lr")
      case True
      with left assms(1,2) l show ?thesis
        by (auto simp: deleteRebalance.simps getHeight_avl Let_def)
    next
      case False
      then have "lr \<noteq> AVLNull" using realHeight_nonneg [of ll] by auto
      then obtain lrx lrl lrr lrh lri where lr: "lr = AVLNode lrx lrl lrr lrh lri"
        by (cases lr) auto
      with False left assms(1,2) l show ?thesis
        by (auto simp: deleteRebalance.simps getHeight_avl Let_def)
    qed
  next
    case right
    then have "r \<noteq> AVLNull" using realHeight_nonneg [of l] by auto
    then obtain rx rl rr rh ri where r: "r = AVLNode rx rl rr rh ri"
      by (cases r) auto
    show ?thesis
    proof (cases "realHeight rl \<le> realHeight rr")
      case True
      with right assms(1,2) r show ?thesis
        by (auto simp: deleteRebalance.simps getHeight_avl Let_def)
    next
      case False
      then have "rl \<noteq> AVLNull" using realHeight_nonneg [of rr] by auto
      then obtain rlx rll rlr rlh rli where rl: "rl = AVLNode rlx rll rlr rlh rli"
        by (cases rl) auto
      with False right assms(1,2) r show ?thesis
        by (auto simp: deleteRebalance.simps getHeight_avl Let_def)
    qed
  qed
qed

lemma deleteRebalance_shrinks_left:
  assumes "avl_inv (AVLNode x l r h i)" "avl_inv l'" "shrinks l l'"
  shows "\<exists>t' c'. deleteRebalance (AVLNode y l' r h i) c = Some (t', c') \<and> avl_inv t' \<and>
           shrinks (AVLNode x l r h i) t'"
proof -
  from assms have r: "avl_inv r" and b: "realHeight l' - realHeight r \<in> {-2, -1, 0, 1, 2}"
    by (auto simp: shrinks_def)
  from deleteRebalance_avl [OF assms(2) r b, of y h i c] assms(1,3)
  show ?thesis
    by (auto simp: shrinks_def split: if_splits)
qed

lemma deleteRebalance_shrinks_right:
  assumes "avl_inv (AVLNode x l r h i)" "avl_inv r'" "shrinks r r'"
  shows "\<exists>t' c'. deleteRebalance (AVLNode y l r' h i) c = Some (t', c') \<and> avl_inv t' \<and>
           shrinks (AVLNode x l r h i) t'"
proof -
  from assms have l: "avl_inv l" and b: "realHeight l - realHeight r' \<in> {-2, -1, 0, 1, 2}"
    by (auto simp: shrinks_def)
  from deleteRebalance_avl [OF l assms(2) b, of y h i c] assms(1,3)
  show ?thesis
    by (auto simp: shrinks_def split: if_splits)
qed

lemma findMin_nonnull: "t \<noteq> AVLNull \<Longrightarrow> AVLTree_findMin t \<noteq> AVLNull"
  by (induction t) auto

lemma deleteHelper_avl:
  "avl_inv t \<Longrightarrow>
   \<exists>t' c'. AVLTree_deleteHelper t v c = Some (t', c') \<and> avl_inv t' \<and> shrinks t t'"
proof (induction t arbitrary: v c)
  case AVLNull
  show ?case by (simp add: shrinks_def)
next
  case (AVLNode x l r h i)
  let ?c1 = "c\<lparr>a_path := a_path c @ [i]\<rparr>"
  let ?c2 = "?c1\<lparr>a_deletedNode := Some i\<rparr>"
  from AVLNode.prems have inv: "avl_inv l" "avl_inv r" by auto
  consider (lt) "v < x" | (gt) "v > x" | (leaf) "v = x" "l = AVLNull \<or> r = AVLNull"
    | (two) "v = x" "l \<noteq> AVLNull" "r \<noteq> AVLNull"
    by fastforce
  then show ?case
  proof cases
    case lt
    from AVLNode.IH(1) [OF inv(1), of v ?c1]
    obtain l' c2 where l': "AVLTree_deleteHelper l v ?c1 = Some (l', c2)" "avl_inv l'"
        "shrinks l l'"
      by blast
    from deleteRebalance_shrinks_left [OF AVLNode.prems l'(2,3), of x c2] l'(1) lt
    show ?thesis by simp
  next
    case gt
    from AVLNode.IH(2) [OF inv(2), of v ?c1]
    obtain r' c2 where r': "AVLTree_deleteHelper r v ?c1 = Some (r', c2)" "avl_inv r'"
        "shrinks r r'"
      by blast
    from deleteRebalance_shrinks_right [OF AVLNode.prems r'(2,3), of x c2] r'(1) gt
    show ?thesis by simp
  next
    case leaf
    with AVLNode.prems show ?thesis
      using realHeight_nonneg [of l] realHeight_nonneg [of r]
      by (auto simp: shrinks_def)
  next
    case two
    from findMin_nonnull [OF two(3)]
    obtain tv tleft tright theight tid where m: "AVLTree_findMin r = AVLNode tv tleft tright theight tid"
      by (cases "AVLTree_findMin r") auto
    from AVLNode.IH(2) [OF inv(2), of tv ?c2]
    obtain r' c3 where r': "AVLTree_deleteHelper r tv ?c2 = Some (r', c3)" "avl_inv r'"
        "shrinks r r'"
      by blast
    from deleteRebalance_shrinks_right [OF AVLNode.prems r'(2,3), of tv c3] r'(1) two m
    show ?thesis by simp
  qed
qed

lemma AVLTree_inorderHelper_eq: "AVLTree_inorderHelper t acc = acc @ avl_inorder t"
  by (induction t arbitrary: acc) auto

lemma AVLTree_inorderTraversal_eq: "AVLTree_inorderTraversal t = avl_inorder (avlRoot t)"
  by (simp add: AVLTree_inorderTraversal_def AVLTree_inorderHelper_eq)

lemma avl_ordered_sorted: "avl_ordered t \<longleftrightarrow> sorted_wrt (<) (avl_inorder t)"
proof (induction t)
  case AVLNull
  show ?case by simp
next
  case (AVLNode x l r h i)
  have "(\<forall>a \<in> set (avl_inorder l). \<forall>b \<in> set (avl_inorder r). a < b)"
    if "\<forall>y \<in> set (avl_inorder l). y < x" "\<forall>y \<in> set (avl_inorder r). x < y"
    using that by fastforce
  with AVLNode show ?case
    by (auto simp: sorted_wrt_append)
qed

lemma updateHeight_inorder [simp]: "avl_inorder (updateHeight t) = avl_inorder t"
  by (cases t) auto

lemma rotateRight_inorder: "rotateRight t = Some t' \<Longrightarrow> avl_inorder t' = avl_inorder t"
  by (cases t rule: rotateRight.cases) auto

lemma rotateLeft_inorder: "rotateLeft t = Some t' \<Longrightarrow> avl_inorder t' = avl_inorder t"
  by (cases t rule: rotateLeft.cases) auto

lemma insertRebalance_inorder:
  "insertRebalance (AVLNode x l r h i) v c = Some (t', c') \<Longrightarrow>
   avl_inorder t' = avl_inorder l @ x # avl_inorder r"
  by (auto simp: insertRebalance.simps Let_def split: if_splits option.splits
        dest!: rotateRight_inorder rotateLeft_inorder)

lemma deleteRebalance_inorder:
  "deleteRebalance (AVLNode x l r h i) c = Some (t', c') \<Longrightarrow>
   avl_inorder t' = avl_inorder l @ x # avl_inorder r"
  by (auto simp: deleteRebalance.simps Let_def split: if_splits option.splits
        dest!: rotateRight_inorder rotateLeft_inorder)

lemma AVLTree_insertHelper_inorder:
  "avl_ordered t \<Longrightarrow> AVLTree_insertHelper t v c = Some (t', c') \<Longrightarrow>
   avl_inorder t' =
     (if v \<in> set (avl_inorder t) then avl_inorder t else insort v (avl_inorder t))"
proof (induction t arbitrary: c t' c')
  case AVLNull
  then show ?case by auto
next
  case (AVLNode x l r h i)
  let ?c1 = "c\<lparr>a_path := a_path c @ [i]\<rparr>"
  consider (lt) "v < x" | (gt) "v > x" | (eq) "v = x" by linarith
  then show ?case
  proof cases
    case lt
    with AVLNode.prems obtain l' c2 where l': "AVLTree_insertHelper l v ?c1 = Some (l', c2)"
        "insertRebalance (AVLNode x l' r h i) v c2 = Some (t', c')"
      by (auto split: option.splits)
    from AVLNode.prems lt have "v \<notin> set (avl_inorder r)" "avl_ordered l" by auto
    with AVLNode.IH(1) [OF this(2) l'(1)] insertRebalance_inorder [OF l'(2)] lt
    show ?thesis by (auto simp: insort_left)
  next
    case gt
    with AVLNode.prems obtain r' c2 where r': "AVLTree_insertHelper r v ?c1 = Some (r', c2)"
        "insertRebalance (AVLNode x l r' h i) v c2 = Some (t', c')"
      by (auto split: option.splits)
    from AVLNode.prems gt have "v \<notin> set (avl_inorder l)" "avl_ordered r"
        "\<forall>y \<in> set (avl_inorder l). y < v" by auto
    with AVLNode.IH(2) [OF this(2) r'(1)] insertRebalance_inorder [OF r'(2)] gt
    show ?thesis by (auto simp: insort_right)
  next
    case eq
    with AVLNode.prems show ?thesis by auto
  qed
qed

lemma avl_inorder_Nil_iff [simp]: "avl_inorder t = [] \<longleftrightarrow> t = AVLNull"
  by (cases t) auto

lemma AVLTree_findMin_hd:
  "AVLTree_findMin t = AVLNode tv tleft tright theight tid \<Longrightarrow> tv = hd (avl_inorder t)"
proof (induction t)
  case AVLNull
  then show ?case by simp
next
  case (AVLNode x l r h i)
  then show ?case by (cases "l = AVLNull") auto
qed

lemma AVLTree_deleteHelper_inorder:
  "avl_ordered t \<Longrightarrow> AVLTree_deleteHelper t v c = Some (t', c') \<Longrightarrow>
   avl_inorder t' = remove1 v (avl_inorder t)"
proof (induction t arbitrary: v c t' c')
  case AVLNull
  then show ?case by auto
next
  case (AVLNode x l r h i)
  let ?c1 = "c\<lparr>a_path := a_path c @ [i]\<rparr>"
  let ?c2 = "?c1\<lparr>a_deletedNode := Some i\<rparr>"
  from AVLNode.prems have ord: "avl_ordered l" "avl_ordered r" by auto
  consider (lt) "v < x" | (gt) "v > x" | (leaf) "v = x" "l = AVLNull \<or> r = AVLNull"
    | (two) "v = x" "l \<noteq> AVLNull" "r \<noteq> AVLNull"
    by fastforce
  then show ?case
  proof cases
    case lt
    with AVLNode.prems obtain l' c2 where l': "AVLTree_deleteHelper l v ?c1 = Some (l', c2)"
        "deleteRebalance (AVLNode x l' r h i) c2 = Some (t', c')"
      by (auto split: option.splits)
    from AVLNode.prems lt have "v \<notin> set (avl_inorder r)" by auto
    with AVLNode.IH(1) [OF ord(1) l'(1)] deleteRebalance_inorder [OF l'(2)] lt
    show ?thesis by (auto simp: remove1_append remove1_idem)
  next
    case gt
    with AVLNode.prems obtain r' c2 where r': "AVLTree_deleteHelper r v ?c1 = Some (r', c2)"
        "deleteRebalance (AVLNode x l r' h i) c2 = Some (t', c')"
      by (auto split: option.splits)
    from AVLNode.prems gt have "v \<notin> set (avl_inorder l)" by auto
    with AVLNode.IH(2) [OF ord(2) r'(1)] deleteRebalance_inorder [OF r'(2)] gt
    show ?thesis by (auto simp: remove1_append)
  next
    case leaf
    from AVLNode.prems have "x \<notin> set (avl_inorder l)" by auto
    with leaf AVLNode.prems(2) show ?thesis
      by (auto simp: remove1_append Let_def)
  next
    case two
    from findMin_nonnull [OF two(3)]
    obtain tv tleft tright theight tid
      where m: "AVLTree_findMin r = AVLNode tv tleft tright theight tid"
      by (cases "AVLTree_findMin r") auto
    from AVLTree_findMin_hd [OF m] have tv: "tv = hd (avl_inorder r)" .
    from two m AVLNode.prems(2) obtain r' c3
      where r': "AVLTree_deleteHelper r tv ?c2 = Some (r', c3)"
        "deleteRebalance (AVLNode tv l r' h i) c3 = Some (t', c')"
      by (auto simp: Let_def split: option.splits)
    have rne: "avl_inorder r \<noteq> []" using two(3) by simp
    have "avl_inorder r' = tl (avl_inorder r)"
      using AVLNode.IH(2) [OF ord(2) r'(1)] tv rne by (cases "avl_inorder r") auto
    then have "tv # avl_inorder r' = avl_inorder r" using tv rne by simp
    moreover from AVLNode.prems have "x \<notin> set (avl_inorder l)" by auto
    ultimately show ?thesis
      using deleteRebalance_inorder [OF r'(2)] two(1)
      by (auto simp: remove1_append)
  qed
qed

lemma insertRebalance_id:
  "avl_inv (AVLNode x l r h i) \<Longrightarrow>
   insertRebalance (AVLNode x l r h i) v c = Some (AVLNode x l r h i, c)"
  by (auto simp: insertRebalance.simps getHeight_avl Let_def)

lemma AVLTree_insertHelper_duplicate:
  "avl_inv t \<Longrightarrow> avl_ordered t \<Longrightarrow> v \<in> set (avl_inorder t) \<Longrightarrow>
   \<exists>tr. AVLTree_insertHelper t v c
           = Some (t, c\<lparr>a_path := a_path c @ tr, a_success := False\<rparr>) \<and>
        tr \<noteq> [] \<and> avl_holds t (last tr) v"
proof (induction t arbitrary: c)
  case AVLNull
  then show ?case by simp
next
  case (AVLNode x l r h i)
  let ?c1 = "c\<lparr>a_path := a_path c @ [i]\<rparr>"
  note id = insertRebalance_id [OF AVLNode.prems(1)]
  from AVLNode.prems have inv: "avl_inv l" "avl_inv r" by auto
  consider (lt) "v < x" | (gt) "v > x" | (eq) "v = x" by linarith
  then show ?case
  proof cases
    case lt
    with AVLNode.prems have "v \<in> set (avl_inorder l)" "avl_ordered l" by auto
    from AVLNode.IH(1) [OF inv(1) this(2,1), of ?c1] obtain tr
      where tr: "AVLTree_insertHelper l v ?c1
                   = Some (l, ?c1\<lparr>a_path := a_path ?c1 @ tr, a_success := False\<rparr>)"
        "tr \<noteq> []" "avl_holds l (last tr) v"
      by blast
    with lt id show ?thesis
      by (intro exI [of _ "i # tr"]) simp
  next
    case gt
    with AVLNode.prems have "v \<in> set (avl_inorder r)" "avl_ordered r" by auto
    from AVLNode.IH(2) [OF inv(2) this(2,1), of ?c1] obtain tr
      where tr: "AVLTree_insertHelper r v ?c1
                   = Some (r, ?c1\<lparr>a_path := a_path ?c1 @ tr, a_success := False\<rparr>)"
        "tr \<noteq> []" "avl_holds r (last tr) v"
      by blast
    with gt id show ?thesis
      by (intro exI [of _ "i # tr"]) simp
  next
    case eq
    then show ?thesis
      by (intro exI [of _ "[i]"]) simp
  qed
qed







lemma avlInsertAll_reachable:
  "avl_reachable t \<Longrightarrow> avlInsertAll t vs = Some t' \<Longrightarrow> avl_reachable t'"
proof (induction vs arbitrary: t)
  case Nil
  then show ?case by simp
next
  case (Cons v vs)
  then obtain t1 c where "AVLTree_insert t v [] = Some (t1, c)" "avlInsertAll t1 vs = Some t'"
    by (auto split: option.splits)
  with Cons show ?case by (blast intro: avl_insert)
qed

lemma avl_20_10_30_built: "avlInsertAll AVLTree_init [30, 20, 10] = Some avl_20_10_30"
  by (simp add: AVLTree_init_def AVLTree_insert_def avl_20_10_30_def insertRebalance.simps
        setRotation_def)


text \<open>Claim C1. In every state of the tree reached from the empty tree by \<^verbatim>\<open>insert\<close>,
  \<^verbatim>\<open>remove\<close>, \<^verbatim>\<open>search\<close>, \<^verbatim>\<open>contains\<close> and \<^verbatim>\<open>clear\<close>, every node's cached
  height is the recomputed height of its subtree (0 for the null pointer, 1 for a leaf)
  and every node's balance factor, height of left minus height of right, is -1, 0 or 1.
  In such a state \<^verbatim>\<open>insert\<close> and \<^verbatim>\<open>remove\<close> never dereference the null pointer:
  they return, for every value.\<close>

theorem avl_invariant:
  "avl_reachable t \<Longrightarrow>
   avl_inv (avlRoot t) \<and>
   (\<forall>v path. AVLTree_insert t v path \<noteq> None) \<and>
   (\<forall>v path. AVLTree_remove t v path \<noteq> None)"
proof -
  assume r: "avl_reachable t"
  then have inv: "avl_inv (avlRoot t)"
  proof (induction rule: avl_reachable.induct)
    case avl_init
    show ?case by (simp add: AVLTree_init_def)
  next
    case (avl_insert t v path t' c)
    let ?c0 = "\<lparr>a_success = True, a_path = path, a_deletedNode = None, a_rotation = NONE,
                a_rotations = [], a_nextNodeId = avlNextNodeId t\<rparr>"
    from insertHelper_avl [OF avl_insert.IH, of v ?c0]
    obtain r' c' where "AVLTree_insertHelper (avlRoot t) v ?c0 = Some (r', c')" "avl_inv r'"
      by blast
    with avl_insert.hyps(2) show ?case
      by (auto simp: AVLTree_insert_def)
  next
    case (avl_remove t v path t' c)
    let ?c0 = "\<lparr>a_success = True, a_path = path, a_deletedNode = None, a_rotation = NONE,
                a_rotations = [], a_nextNodeId = avlNextNodeId t\<rparr>"
    from deleteHelper_avl [OF avl_remove.IH, of v ?c0]
    obtain r' c' where "AVLTree_deleteHelper (avlRoot t) v ?c0 = Some (r', c')" "avl_inv r'"
      by blast
    with avl_remove.hyps(2) show ?case
      by (auto simp: AVLTree_remove_def)
  next
    case (avl_search t v path t' found)
    then show ?case by (simp add: AVLTree_search_def)
  next
    case (avl_contains t v t' b)
    then show ?case
      by (auto simp: AVLTree_contains_def AVLTree_search_def split: prod.splits)
  next
    case (avl_clear t)
    show ?case by (simp add: AVLTree_clear_def)
  qed
  have "AVLTree_insert t v path \<noteq> None" for v path
    using insertHelper_avl [OF inv, of v
            "\<lparr>a_success = True, a_path = path, a_deletedNode = None, a_rotation = NONE,
              a_rotations = [], a_nextNodeId = avlNextNodeId t\<rparr>"]
    by (auto simp: AVLTree_insert_def)
  moreover have "AVLTree_remove t v path \<noteq> None" for v path
    using deleteHelper_avl [OF inv, of v
            "\<lparr>a_success = True, a_path = path, a_deletedNode = None, a_rotation = NONE,
              a_rotations = [], a_nextNodeId = avlNextNodeId t\<rparr>"]
    by (auto simp: AVLTree_remove_def)
  ultimately show ?thesis using inv by blast
qed

theorem avl_invariant_witness:
  "avl_reachable avl_20_10_30 \<and> avl_inv (avlRoot avl_20_10_30) \<and>
   cachedHeights (avlRoot avl_20_10_30) = [2, 1, 1]"
proof -
  have r: "avl_reachable avl_20_10_30"
    using avlInsertAll_reachable [OF avl_init avl_20_10_30_built] .
  from avl_invariant [OF r] r show ?thesis
    by (simp add: avl_20_10_30_def)
qed



subsection \<open>Search trees: duplicates, insert then remove, deletedNode\<close>

lemmas avl_eval = AVLTree_init_def AVLTree_insert_def AVLTree_remove_def
  insertRebalance.simps deleteRebalance.simps setRotation_def

lemma bst_50_30_built: "bstInsertAll BST_init [50, 30] = bst_50_30"
  by (simp add: BST_init_def BST_insert_def bst_50_30_def)


lemma avl_7_built: "avlInsertAll AVLTree_init [50, 30, 70, 20, 40, 60, 80] = Some avl_7"
  by (simp add: avl_eval avl_7_def)

text \<open>Claim C5. On a search tree (ordered; for the AVL tree also with correct cached
  heights and balanced) that holds the value \<open>v\<close>, \<^verbatim>\<open>insert(v)\<close> returns false and
  leaves the tree object as it was: same nodes, links, values, cached heights and
  identifier counter. The part of the trace it appends is not empty and its last element
  is a node of the tree that holds \<open>v\<close>. For the AVL tree the reported rotation is
  \<open>NONE\<close> and no rotation was assigned.\<close>

theorem duplicate_insert:
  "(bst_ordered (bstRoot bt) \<and> v \<in> set (BST_inorderTraversal bt) \<longrightarrow>
      (\<exists>c tr. BST_insert bt v path = (bt, c) \<and> \<not> b_success c \<and>
              b_path c = path @ tr \<and> tr \<noteq> [] \<and> bst_holds (bstRoot bt) (last (b_path c)) v)) \<and>
   (avl_inv (avlRoot at) \<and> avl_ordered (avlRoot at) \<and> v \<in> set (AVLTree_inorderTraversal at) \<longrightarrow>
      (\<exists>c tr. AVLTree_insert at v path = Some (at, c) \<and> \<not> a_success c \<and>
              a_rotation c = NONE \<and> a_rotations c = [] \<and>
              a_path c = path @ tr \<and> tr \<noteq> [] \<and> avl_holds (avlRoot at) (last (a_path c)) v))"
proof (intro conjI impI)
  assume a: "bst_ordered (bstRoot bt) \<and> v \<in> set (BST_inorderTraversal bt)"
  let ?c0 = "\<lparr>b_success = True, b_path = path, b_deletedNode = None, b_successor = None,
              b_nextNodeId = bstNextNodeId bt\<rparr>"
  from a have "v \<in> set (bst_inorder (bstRoot bt))" by (simp add: BST_inorderTraversal_eq)
  from BST_insertHelper_duplicate [OF _ this, of ?c0] a obtain tr
    where tr: "BST_insertHelper (bstRoot bt) v ?c0
                 = (bstRoot bt, ?c0\<lparr>b_path := b_path ?c0 @ tr, b_success := False\<rparr>)"
      "tr \<noteq> []" "bst_holds (bstRoot bt) (last tr) v"
    by blast
  then show "\<exists>c tr. BST_insert bt v path = (bt, c) \<and> \<not> b_success c \<and>
              b_path c = path @ tr \<and> tr \<noteq> [] \<and> bst_holds (bstRoot bt) (last (b_path c)) v"
    by (simp add: BST_insert_def)
next
  assume a: "avl_inv (avlRoot at) \<and> avl_ordered (avlRoot at) \<and>
             v \<in> set (AVLTree_inorderTraversal at)"
  let ?c0 = "\<lparr>a_success = True, a_path = path, a_deletedNode = None, a_rotation = NONE,
              a_rotations = [], a_nextNodeId = avlNextNodeId at\<rparr>"
  from a have "v \<in> set (avl_inorder (avlRoot at))" by (simp add: AVLTree_inorderTraversal_eq)
  from AVLTree_insertHelper_duplicate [OF _ _ this, of ?c0] a obtain tr
    where tr: "AVLTree_insertHelper (avlRoot at) v ?c0
                 = Some (avlRoot at, ?c0\<lparr>a_path := a_path ?c0 @ tr, a_success := False\<rparr>)"
      "tr \<noteq> []" "avl_holds (avlRoot at) (last tr) v"
    by blast
  then show "\<exists>c tr. AVLTree_insert at v path = Some (at, c) \<and> \<not> a_success c \<and>
              a_rotation c = NONE \<and> a_rotations c = [] \<and>
              a_path c = path @ tr \<and> tr \<noteq> [] \<and> avl_holds (avlRoot at) (last (a_path c)) v"
    by (simp add: AVLTree_insert_def)
qed

theorem duplicate_insert_witness:
  "bst_ordered (bstRoot bst_50_30) \<and> 30 \<in> set (BST_inorderTraversal bst_50_30) \<and>
   BST_insert bst_50_30 30 []
     = (bst_50_30, \<lparr>b_success = False, b_path = [0, 1], b_deletedNode = None,
                    b_successor = None, b_nextNodeId = 2\<rparr>) \<and>
   avl_inv (avlRoot avl_20_10_30) \<and> avl_ordered (avlRoot avl_20_10_30) \<and>
   10 \<in> set (AVLTree_inorderTraversal avl_20_10_30) \<and>
   AVLTree_insert avl_20_10_30 10 []
     = Some (avl_20_10_30, \<lparr>a_success = False, a_path = [1, 2], a_deletedNode = None,
                            a_rotation = NONE, a_rotations = [], a_nextNodeId = 3\<rparr>)"
  using duplicate_insert [of bst_50_30 30 "[]" avl_20_10_30]
        duplicate_insert [of bst_50_30 10 "[]" avl_20_10_30]
  by (simp add: bst_50_30_def avl_20_10_30_def BST_insert_def BST_inorderTraversal_def
        AVLTree_inorderTraversal_def avl_eval)

lemma strict_sorted_insort:
  "sorted_wrt (<) xs \<Longrightarrow> v \<notin> set xs \<Longrightarrow> sorted_wrt (<) (insort v (xs :: int list))"
proof -
  assume s: "sorted_wrt (<) xs" and n: "v \<notin> set xs"
  then have "sorted xs" "distinct xs"
    by (simp_all add: strict_sorted_iff)
  with n have "sorted (insort v xs)" "distinct (insort v xs)"
    by (simp_all add: sorted_insort distinct_insort)
  then show ?thesis by (simp add: strict_sorted_iff)
qed






text \<open>Claim C4 at a failing input. Both trees are built by inserting 50, 30, 70, 20, 40,
  60, 80; the node of 30 has identifier 1 and two children, its in-order successor, the
  node of 40, has identifier 4. \<^verbatim>\<open>BST::remove(30)\<close> hands out the node whose value was
  overwritten (identifier 1) as \<^verbatim>\<open>deletedNode\<close> and the successor (identifier 4) as
  \<^verbatim>\<open>successor\<close>. \<^verbatim>\<open>AVLTree::remove(30)\<close> overwrites the value of node 1 with 40 as
  well, but hands out the unlinked successor, identifier 4, as \<^verbatim>\<open>deletedNode\<close>: the
  recursive call that unlinks the successor assigns the caller's \<^verbatim>\<open>deletedNode\<close>
  again.\<close>

theorem AVLTree_remove_two_children_deletedNode:
  "avlInsertAll AVLTree_init [50, 30, 70, 20, 40, 60, 80] = Some avl_7 \<and>
   BST_remove (bstInsertAll BST_init [50, 30, 70, 20, 40, 60, 80]) 30 [] =
     (\<lparr>bstRoot =
         Node 50 (Node 40 (Node 20 Null Null 3) Null 1)
                 (Node 70 (Node 60 Null Null 5) (Node 80 Null Null 6) 2) 0,
       bstNextNodeId = 7\<rparr>,
      \<lparr>b_success = True, b_path = [0, 1, 4], b_deletedNode = Some 1,
       b_successor = Some 4, b_nextNodeId = 7\<rparr>) \<and>
   AVLTree_remove avl_7 30 [] =
     Some (\<lparr>avlRoot =
              AVLNode 50
                (AVLNode 40 (AVLNode 20 AVLNull AVLNull 1 3) AVLNull 2 1)
                (AVLNode 70 (AVLNode 60 AVLNull AVLNull 1 5) (AVLNode 80 AVLNull AVLNull 1 6) 2 2)
                3 0,
            avlNextNodeId = 7\<rparr>,
           \<lparr>a_success = True, a_path = [0, 1, 4], a_deletedNode = Some 4,
            a_rotation = NONE, a_rotations = [], a_nextNodeId = 7\<rparr>)"
  using avl_7_built
  by (simp add: avl_7_def avl_eval BST_init_def BST_insert_def BST_remove_def)

subsection \<open>Search trees: the order invariant holds in every reachable state\<close>

lemma strict_sorted_remove1:
  "sorted_wrt (<) xs \<Longrightarrow> sorted_wrt (<) (remove1 v (xs :: int list))"
  by (simp add: strict_sorted_iff sorted_remove1)

lemma BST_insertHelper_ordered:
  "bst_ordered t \<Longrightarrow> bst_ordered (fst (BST_insertHelper t v c))"
  using BST_insertHelper_inorder [of t v c] strict_sorted_insort [of "bst_inorder t" v]
  by (auto simp: bst_ordered_sorted)

lemma BST_deleteHelper_ordered:
  "bst_ordered t \<Longrightarrow> bst_ordered (fst (BST_deleteHelper t v c))"
  using BST_deleteHelper_inorder [of t v c] strict_sorted_remove1 [of "bst_inorder t" v]
  by (auto simp: bst_ordered_sorted)

lemma bst_reachable_ordered: "bst_reachable t \<Longrightarrow> bst_ordered (bstRoot t)"
proof (induction rule: bst_reachable.induct)
  case bst_init
  show ?case by (simp add: BST_init_def)
next
  case (bst_insert t v path t' c)
  have "bstRoot t' = fst (BST_insertHelper (bstRoot t) v
       \<lparr>b_success = True, b_path = path, b_deletedNode = None, b_successor = None,
        b_nextNodeId = bstNextNodeId t\<rparr>)"
    using bst_insert.hyps(2) by (auto simp: BST_insert_def split: prod.splits)
  with BST_insertHelper_ordered [OF bst_insert.IH] show ?case by simp
next
  case (bst_remove t v path t' c)
  have "bstRoot t' = fst (BST_deleteHelper (bstRoot t) v
       \<lparr>b_success = True, b_path = path, b_deletedNode = None, b_successor = None,
        b_nextNodeId = bstNextNodeId t\<rparr>)"
    using bst_remove.hyps(2) by (auto simp: BST_remove_def split: prod.splits)
  with BST_deleteHelper_ordered [OF bst_remove.IH] show ?case by simp
next
  case (bst_search t v path t' found)
  then show ?case by (simp add: BST_search_def)
next
  case (bst_contains t v t' b)
  then show ?case by (auto simp: BST_contains_def BST_search_def split: prod.splits)
next
  case (bst_clear t)
  show ?case by (simp add: BST_clear_def)
qed

lemma AVLTree_insertHelper_ordered:
  "avl_ordered t \<Longrightarrow> AVLTree_insertHelper t v c = Some (t', c') \<Longrightarrow> avl_ordered t'"
  using AVLTree_insertHelper_inorder [of t v c t' c'] strict_sorted_insort [of "avl_inorder t" v]
  by (auto simp: avl_ordered_sorted)

lemma AVLTree_deleteHelper_ordered:
  "avl_ordered t \<Longrightarrow> AVLTree_deleteHelper t v c = Some (t', c') \<Longrightarrow> avl_ordered t'"
  using AVLTree_deleteHelper_inorder [of t v c t' c'] strict_sorted_remove1 [of "avl_inorder t" v]
  by (auto simp: avl_ordered_sorted)

lemma avl_reachable_ordered: "avl_reachable t \<Longrightarrow> avl_ordered (avlRoot t)"
proof (induction rule: avl_reachable.induct)
  case avl_init
  show ?case by (simp add: AVLTree_init_def)
next
  case (avl_insert t v path t' c)
  from avl_insert.hyps(2) obtain r' where
    "AVLTree_insertHelper (avlRoot t) v
       \<lparr>a_success = True, a_path = path, a_deletedNode = None, a_rotation = NONE,
        a_rotations = [], a_nextNodeId = avlNextNodeId t\<rparr> = Some (r', c)" "avlRoot t' = r'"
    by (auto simp: AVLTree_insert_def split: option.splits)
  with AVLTree_insertHelper_ordered [OF avl_insert.IH] show ?case by simp
next
  case (avl_remove t v path t' c)
  from avl_remove.hyps(2) obtain r' where
    "AVLTree_deleteHelper (avlRoot t) v
       \<lparr>a_success = True, a_path = path, a_deletedNode = None, a_rotation = NONE,
        a_rotations = [], a_nextNodeId = avlNextNodeId t\<rparr> = Some (r', c)" "avlRoot t' = r'"
    by (auto simp: AVLTree_remove_def split: option.splits)
  with AVLTree_deleteHelper_ordered [OF avl_remove.IH] show ?case by simp
next
  case (avl_search t v path t' found)
  then show ?case by (simp add: AVLTree_search_def)
next
  case (avl_contains t v t' b)
  then show ?case by (auto simp: AVLTree_contains_def AVLTree_search_def split: prod.splits)
next
  case (avl_clear t)
  show ?case by (simp add: AVLTree_clear_def)
qed

end
